theory Spec2Isabelle
  imports Complex_Main "HOL-Library.Sublist"
begin

section \<open>Python values, errors and the collaborators of emulatorfunctions.py\<close>

text \<open>
  \<^verbatim>\<open>emulatorfunctions.py\<close> is the orchestration layer of the emulator: \<^verbatim>\<open>setup\<close>,
  \<^verbatim>\<open>train\<close> and \<^verbatim>\<open>plot\<close> compute nothing themselves, they call the classes of
  \<^verbatim>\<open>_emulatorclasses\<close>, \<^verbatim>\<open>_emulatoroptimise\<close>, \<^verbatim>\<open>emulatorkernels\<close> and
  \<^verbatim>\<open>emulatorplotting\<close> in a fixed order. Those modules are collaborators: what a call to
  one of them does is a parameter of the model, and what the three functions do is the
  sequence of calls they make, with the arguments they pass and the use they make of the
  results.
\<close>

text \<open>The Python values the three functions handle. An object of a collaborator class is
  an opaque reference \<open>Obj a\<close>: two values are the same instance iff they are equal.\<close>

datatype val =
    NoneV
  | BoolV bool
  | IntV int
  | FloatV real
  | StrV string
  | ListV "val list"
  | Obj nat

text \<open>The exceptions that can leave the three functions: an index out of range (raised by
  a subscript in \<^verbatim>\<open>plot\<close>), a missing attribute, and whatever a collaborator raises.\<close>

datatype error = IndexError | AttributeError | Raised string

text \<open>The callables of the collaborator modules, by the name the source calls them.\<close>

datatype fn =
    Config | Beliefs | Hyperparams | Basis | TV_config | All_Data
  | build_kernel | auto_configure_kernel | choose_T | choose_V
  | Data | Posterior | Optimize | Emulator
  | auto_train | doing_training | llhoptimize_full | remake
  | mahalanobis_distance | indiv_standard_error
  | final_beliefs | final_design_points
  | check_still_training | incVinT | next_Vset | choose_new_V | do_final_build
  | make_inputs | plotting

text \<open>The aggregate \<^verbatim>\<open>Emulator(config, beliefs, par, basis, tv_conf, all_data, training,
  validation, post, opt_T, K)\<close>: the class is declared in \<^verbatim>\<open>_emulatorclasses\<close>; its
  attributes are the ones \<^verbatim>\<open>train\<close> and \<^verbatim>\<open>plot\<close> read, bound to the constructor's
  arguments in their order. \<open>self\<close> is the reference of the aggregate itself. The source
  never assigns to an attribute of \<^verbatim>\<open>E\<close>: the components are mutated in place.\<close>

record emulator =
  self :: val
  config :: val
  beliefs :: val
  par :: val
  basis :: val
  tv_conf :: val
  all_data :: val
  training :: val
  validation :: val
  post :: val
  opt_T :: val
  K :: val

text \<open>An argument of a call is positional or a keyword argument. The receiver of a
  method call is the first positional argument (Python's \<^verbatim>\<open>self\<close>).\<close>

datatype arg = Pos val | Key string val

text \<open>What the functions do to the outside: a call of a collaborator, or a line printed.\<close>

datatype event = Call fn "arg list" | Print string

text \<open>
  The collaborators, over a state \<open>'w\<close> of everything they own (the contents of every
  object, the files): \<open>perform\<close> is the effect of a call (it returns or raises, and changes
  the state), \<open>getattr\<close> reads an attribute of an object.
\<close>

record 'w collaborators =
  perform :: "fn \<Rightarrow> arg list \<Rightarrow> 'w \<Rightarrow> (error + val) \<times> 'w"
  getattr :: "'w \<Rightarrow> val \<Rightarrow> string \<Rightarrow> error + val"

text \<open>The log keeps, for every event, its result and the collaborators' state after it.\<close>

type_synonym 'w entry = "event \<times> (error + val) \<times> 'w"

type_synonym 'w state = "'w \<times> 'w entry list"

text \<open>A piece of program: from a state it returns a value or raises, in a new state;
  \<open>None\<close> is a run that never returns.\<close>

type_synonym ('w, 'a) prog = "'w state \<Rightarrow> ((error + 'a) \<times> 'w state) option"

definition ret :: "'a \<Rightarrow> ('w, 'a) prog" where
  "ret a = (\<lambda>st. Some (Inr a, st))"

definition raise :: "error \<Rightarrow> ('w, 'a) prog" where
  "raise e = (\<lambda>st. Some (Inl e, st))"

definition andthen :: "('w, 'a) prog \<Rightarrow> ('a \<Rightarrow> ('w, 'b) prog) \<Rightarrow> ('w, 'b) prog" where
  "andthen m f = (\<lambda>st.
     case m st of
       None \<Rightarrow> None
     | Some (Inl e, st') \<Rightarrow> Some (Inl e, st')
     | Some (Inr a, st') \<Rightarrow> f a st')"

text \<open>A call of a collaborator: performed on the state, and logged.\<close>

definition invoke :: "'w collaborators \<Rightarrow> fn \<Rightarrow> arg list \<Rightarrow> ('w, val) prog" where
  "invoke env f as = (\<lambda>(w, lg).
     case perform env f as w of
       (r, w') \<Rightarrow> Some (r, (w', lg @ [(Call f as, r, w')])))"

text \<open>A call as a statement: the value it returns is dropped.\<close>

definition stmt :: "'w collaborators \<Rightarrow> fn \<Rightarrow> arg list \<Rightarrow> ('w, unit) prog" where
  "stmt env f as = andthen (invoke env f as) (\<lambda>_. ret ())"

text \<open>\<^verbatim>\<open>print(s)\<close>: a line on the standard output; the collaborators' state is untouched.\<close>

definition py_print :: "string \<Rightarrow> ('w, unit) prog" where
  "py_print s = (\<lambda>(w, lg). Some (Inr (), (w, lg @ [(Print s, Inr NoneV, w)])))"

text \<open>An attribute read.\<close>

definition attr :: "'w collaborators \<Rightarrow> val \<Rightarrow> string \<Rightarrow> ('w, val) prog" where
  "attr env v name = (\<lambda>(w, lg). Some (getattr env w v name, (w, lg)))"

text \<open>A sequence of statements.\<close>

primrec block :: "('w, unit) prog list \<Rightarrow> ('w, unit) prog" where
  "block [] = ret ()"
| "block (s # ss) = andthen s (\<lambda>_. block ss)"

text \<open>Python's truth value of a value, as \<^verbatim>\<open>if\<close> and \<^verbatim>\<open>while\<close> take it.\<close>

fun truthy :: "val \<Rightarrow> bool" where
  "truthy NoneV = False"
| "truthy (BoolV b) = b"
| "truthy (IntV n) = (n \<noteq> 0)"
| "truthy (FloatV r) = (r \<noteq> 0)"
| "truthy (StrV s) = (s \<noteq> [])"
| "truthy (ListV vs) = (vs \<noteq> [])"
| "truthy (Obj a) = True"

text \<open>\<^verbatim>\<open>v != 0\<close>: numbers compare by value (\<^verbatim>\<open>False == 0\<close>, \<^verbatim>\<open>True == 1\<close>), anything
  else is different from 0.\<close>

fun ne_zero :: "val \<Rightarrow> bool" where
  "ne_zero (BoolV b) = b"
| "ne_zero (IntV n) = (n \<noteq> 0)"
| "ne_zero (FloatV r) = (r \<noteq> 0)"
| "ne_zero v = True"

text \<open>\<^verbatim>\<open>if c: body\<close> with no else branch.\<close>

definition py_if :: "('w, val) prog \<Rightarrow> ('w, unit) prog \<Rightarrow> ('w, unit) prog" where
  "py_if c body = andthen c (\<lambda>b. if truthy b then body else ret ())"

text \<open>\<^verbatim>\<open>while c: body\<close>. The loop may run forever: then its value is \<open>None\<close>.\<close>

partial_function (option) py_while ::
  "('w, val) prog \<Rightarrow> ('w, unit) prog \<Rightarrow> 'w state \<Rightarrow> ((error + unit) \<times> 'w state) option" where
  "py_while c body st =
     (case c st of
        None \<Rightarrow> None
      | Some (Inl e, st1) \<Rightarrow> Some (Inl e, st1)
      | Some (Inr b, st1) \<Rightarrow>
          if truthy b then
            (case body st1 of
               None \<Rightarrow> None
             | Some (Inl e, st2) \<Rightarrow> Some (Inl e, st2)
             | Some (Inr u, st2) \<Rightarrow> py_while c body st2)
          else Some (Inr (), st1))"

section \<open>train\<close>

text \<open>
  \<^verbatim>\<open>
  def train(E, auto=True, message=False):
      E.tv_conf.auto_train(auto)
      while E.tv_conf.doing_training():
          E.opt_T.llhoptimize_full(E.config, message)
          E.training.remake()
          E.validation.remake()
          E.post.remake()
          E.post.mahalanobis_distance()
          E.post.indiv_standard_error(ise=2.0)
          E.beliefs.final_beliefs(E, False)
          E.post.final_design_points(E, False)
          if E.tv_conf.check_still_training():
              print("Preparing for next round of training...")
              E.post.incVinT()
              E.tv_conf.next_Vset()
              E.all_data.choose_new_V(E.validation)
              E.training.remake()
              E.validation.remake()
              E.post.remake()
      if E.tv_conf.do_final_build():
          print("\n***Doing final build***")
          if E.tv_conf.noV != 0:
              E.post.incVinT()
          E.training.remake()
          E.opt_T.llhoptimize_full(E.config, message)
          E.training.remake()
          E.beliefs.final_beliefs(E, True)
          E.post.final_design_points(E, True)
      return None
  \<close>
\<close>

text \<open>The body of the if at the end of a round (lines 94 to 100).\<close>

definition next_round :: "'w collaborators \<Rightarrow> emulator \<Rightarrow> ('w, unit) prog" where
  "next_round env E = block
     [ py_print ''Preparing for next round of training...'',
       stmt env incVinT [Pos (post E)],
       stmt env next_Vset [Pos (tv_conf E)],
       stmt env choose_new_V [Pos (all_data E), Pos (validation E)],
       stmt env remake [Pos (training E)],
       stmt env remake [Pos (validation E)],
       stmt env remake [Pos (post E)] ]"

text \<open>The body of the while loop: one round of training and validation (lines 76 to 100).\<close>

definition train_round :: "'w collaborators \<Rightarrow> emulator \<Rightarrow> bool \<Rightarrow> ('w, unit) prog" where
  "train_round env E message = block
     [ stmt env llhoptimize_full [Pos (opt_T E), Pos (config E), Pos (BoolV message)],
       stmt env remake [Pos (training E)],
       stmt env remake [Pos (validation E)],
       stmt env remake [Pos (post E)],
       stmt env mahalanobis_distance [Pos (post E)],
       stmt env indiv_standard_error [Pos (post E), Key ''ise'' (FloatV 2.0)],
       stmt env final_beliefs [Pos (beliefs E), Pos (self E), Pos (BoolV False)],
       stmt env final_design_points [Pos (post E), Pos (self E), Pos (BoolV False)],
       py_if (invoke env check_still_training [Pos (tv_conf E)]) (next_round env E) ]"

text \<open>The body of the if after the loop: the final build (lines 104 to 117).\<close>

definition final_build :: "'w collaborators \<Rightarrow> emulator \<Rightarrow> bool \<Rightarrow> ('w, unit) prog" where
  "final_build env E message = block
     [ py_print (CHR 0x0A # ''***Doing final build***''),
       py_if (andthen (attr env (tv_conf E) ''noV'') (\<lambda>n. ret (BoolV (ne_zero n))))
         (stmt env incVinT [Pos (post E)]),
       stmt env remake [Pos (training E)],
       stmt env llhoptimize_full [Pos (opt_T E), Pos (config E), Pos (BoolV message)],
       stmt env remake [Pos (training E)],
       stmt env final_beliefs [Pos (beliefs E), Pos (self E), Pos (BoolV True)],
       stmt env final_design_points [Pos (post E), Pos (self E), Pos (BoolV True)] ]"

text \<open>The while loop (lines 75 to 100).\<close>

definition training_loop :: "'w collaborators \<Rightarrow> emulator \<Rightarrow> bool \<Rightarrow> ('w, unit) prog" where
  "training_loop env E message =
     py_while (invoke env doing_training [Pos (tv_conf E)]) (train_round env E message)"

text \<open>The if after the loop (lines 103 to 117).\<close>

definition final_stage :: "'w collaborators \<Rightarrow> emulator \<Rightarrow> bool \<Rightarrow> ('w, unit) prog" where
  "final_stage env E message =
     py_if (invoke env do_final_build [Pos (tv_conf E)]) (final_build env E message)"

definition train :: "'w collaborators \<Rightarrow> emulator \<Rightarrow> bool \<Rightarrow> bool \<Rightarrow> ('w, val) prog" where
  "train env E auto message =
     andthen
       (block
         [ stmt env auto_train [Pos (tv_conf E), Pos (BoolV auto)],
           training_loop env E message,
           final_stage env E message ])
       (\<lambda>_. ret NoneV)"

section \<open>What a run of train logs\<close>

definition outcome_ok :: "(error + 'a) \<Rightarrow> 'w entry list \<Rightarrow> event list \<Rightarrow> bool" where
  "outcome_ok r new evs =
     (case r of
        Inr u \<Rightarrow> map fst new = evs
      | Inl e \<Rightarrow> new \<noteq> [] \<and> prefix (map fst new) evs \<and> fst (snd (last new)) = Inl e)"

definition next_events :: "emulator \<Rightarrow> event list" where
  "next_events E =
     [ Print ''Preparing for next round of training...'',
       Call incVinT [Pos (post E)],
       Call next_Vset [Pos (tv_conf E)],
       Call choose_new_V [Pos (all_data E), Pos (validation E)],
       Call remake [Pos (training E)],
       Call remake [Pos (validation E)],
       Call remake [Pos (post E)] ]"

definition validation_events :: "emulator \<Rightarrow> bool \<Rightarrow> event list" where
  "validation_events E message =
     [ Call llhoptimize_full [Pos (opt_T E), Pos (config E), Pos (BoolV message)],
       Call remake [Pos (training E)],
       Call remake [Pos (validation E)],
       Call remake [Pos (post E)],
       Call mahalanobis_distance [Pos (post E)],
       Call indiv_standard_error [Pos (post E), Key ''ise'' (FloatV 2.0)],
       Call final_beliefs [Pos (beliefs E), Pos (self E), Pos (BoolV False)],
       Call final_design_points [Pos (post E), Pos (self E), Pos (BoolV False)] ]"

definition round_events :: "emulator \<Rightarrow> bool \<Rightarrow> bool \<Rightarrow> event list" where
  "round_events E message again =
     validation_events E message @ [Call check_still_training [Pos (tv_conf E)]]
     @ (if again then next_events E else [])"

definition round_ok :: "emulator \<Rightarrow> bool \<Rightarrow> (error + unit) \<Rightarrow> 'w entry list \<Rightarrow> bool" where
  "round_ok E message r new =
     (case r of
        Inr u \<Rightarrow>
          8 < length new \<and>
          (case fst (snd (new ! 8)) of
             Inr v \<Rightarrow> map fst new = round_events E message (truthy v)
           | Inl e \<Rightarrow> False)
      | Inl e \<Rightarrow> outcome_ok r new (round_events E message True))"

definition while_round ::
  "event \<Rightarrow> ((error + unit) \<Rightarrow> 'w entry list \<Rightarrow> bool) \<Rightarrow> 'w entry list \<Rightarrow> bool" where
  "while_round guard B seg =
     (case seg of
        [] \<Rightarrow> False
      | (ev, rc, wd) # new \<Rightarrow>
          ev = guard \<and> (case rc of Inl e \<Rightarrow> False | Inr b \<Rightarrow> truthy b) \<and> B (Inr ()) new)"

definition while_exit ::
  "event \<Rightarrow> ((error + unit) \<Rightarrow> 'w entry list \<Rightarrow> bool) \<Rightarrow> (error + unit) \<Rightarrow> 'w entry list \<Rightarrow> bool" where
  "while_exit guard B r rest =
     (case rest of
        [] \<Rightarrow> False
      | (ev, rc, wd) # new \<Rightarrow>
          ev = guard \<and>
          (case rc of
             Inl e \<Rightarrow> r = Inl e \<and> new = []
           | Inr b \<Rightarrow>
               if truthy b then (case r of Inl e \<Rightarrow> B r new | Inr u \<Rightarrow> False)
               else r = Inr () \<and> new = []))"

definition final_events :: "emulator \<Rightarrow> bool \<Rightarrow> bool \<Rightarrow> event list" where
  "final_events E message folded =
     Print (CHR 0x0A # ''***Doing final build***'')
     # (if folded then [Call incVinT [Pos (post E)]] else [])
     @ [ Call remake [Pos (training E)],
         Call llhoptimize_full [Pos (opt_T E), Pos (config E), Pos (BoolV message)],
         Call remake [Pos (training E)],
         Call final_beliefs [Pos (beliefs E), Pos (self E), Pos (BoolV True)],
         Call final_design_points [Pos (post E), Pos (self E), Pos (BoolV True)] ]"

definition final_ok ::
  "'w collaborators \<Rightarrow> emulator \<Rightarrow> bool \<Rightarrow> 'w \<Rightarrow> (error + unit) \<Rightarrow> 'w entry list \<Rightarrow> bool" where
  "final_ok env E message w r new =
     (case getattr env w (tv_conf E) ''noV'' of
        Inl e \<Rightarrow> r = Inl e \<and> map fst new = [Print (CHR 0x0A # ''***Doing final build***'')]
      | Inr n \<Rightarrow> outcome_ok r new (final_events E message (ne_zero n)))"

definition stage_ok ::
  "'w collaborators \<Rightarrow> emulator \<Rightarrow> bool \<Rightarrow> (error + unit) \<Rightarrow> 'w entry list \<Rightarrow> bool" where
  "stage_ok env E message r new =
     (case new of
        [] \<Rightarrow> False
      | (ev, rd, wd) # fin \<Rightarrow>
          ev = Call do_final_build [Pos (tv_conf E)] \<and>
          (case rd of
             Inl e \<Rightarrow> r = Inl e \<and> fin = []
           | Inr b \<Rightarrow>
               if truthy b then final_ok env E message wd r fin
               else r = Inr () \<and> fin = []))"

definition returned :: "'w entry \<Rightarrow> bool" where
  "returned x = (case fst (snd x) of Inr v \<Rightarrow> True | Inl e \<Rightarrow> False)"

definition answer :: "'w entry \<Rightarrow> bool" where
  "answer x = (case fst (snd x) of Inr v \<Rightarrow> truthy v | Inl e \<Rightarrow> False)"

definition validation_round :: "emulator \<Rightarrow> bool \<Rightarrow> 'w entry list \<Rightarrow> bool" where
  "validation_round E message seg \<longleftrightarrow>
     9 < length seg \<and> answer (seg ! 0) \<and> returned (seg ! 9) \<and>
     map fst seg =
       Call doing_training [Pos (tv_conf E)] # round_events E message (answer (seg ! 9))"

definition last_round :: "emulator \<Rightarrow> bool \<Rightarrow> (error + unit) \<Rightarrow> 'w entry list \<Rightarrow> bool" where
  "last_round E message r rest \<longleftrightarrow>
     rest \<noteq> [] \<and>
     (case r of
        Inr u \<Rightarrow>
          map fst rest = [Call doing_training [Pos (tv_conf E)]] \<and>
          returned (hd rest) \<and> \<not> answer (hd rest)
      | Inl e \<Rightarrow>
          fst (snd (last rest)) = Inl e \<and>
          prefix (map fst rest)
            (Call doing_training [Pos (tv_conf E)] # round_events E message True) \<and>
          (length rest = 1 \<or> answer (hd rest)))"

section \<open>A partition plan to run the functions on\<close>

text \<open>
  Modelled from the spec: the Partition Plan and the Dataset Partition, which are the
  classes \<^verbatim>\<open>TV_config\<close> and \<^verbatim>\<open>All_Data\<close> of \<^verbatim>\<open>_emulatorclasses\<close> and are not in
  \<^verbatim>\<open>emulatorfunctions.py\<close>. The plan "describes how many validation blocks exist (noV),
  which block is current, and whether automatic promotion is enabled"; the partition is
  "one training block and a finite ordered sequence of validation blocks" and "supports
  moving a validation block into training". The state \<open>Validating(k)\<close> of the spec is
  \<open>current = k\<close> with \<open>k < noV\<close> and \<open>exhausted\<close> false; rounds run "while validation sets
  remain", a promotion happens "if more validation blocks remain" and automatic promotion
  is enabled, and otherwise the plan is \<open>Exhausted\<close>; the final build is run "if a final
  build is requested". Every other collaborator call returns \<^verbatim>\<open>None\<close> and leaves the plan
  as it is.
\<close>

record partition =
  noV :: nat
  current :: nat
  auto_promote :: bool
  exhausted :: bool
  final_requested :: bool
  T_block :: "nat list"
  V_blocks :: "nat list list"

definition V_block :: "partition \<Rightarrow> nat list" where
  "V_block p = (if current p < length (V_blocks p) then V_blocks p ! current p else [])"

definition partition_perform :: "fn \<Rightarrow> arg list \<Rightarrow> partition \<Rightarrow> (error + val) \<times> partition" where
  "partition_perform f as p =
     (if f = auto_train then
        (case as of
           [slf, Pos (BoolV a)] \<Rightarrow> (Inr NoneV, p\<lparr>auto_promote := a\<rparr>)
         | _ \<Rightarrow> (Inl (Raised ''TypeError''), p))
      else if f = doing_training then
        (Inr (BoolV (current p < noV p \<and> \<not> exhausted p)), p)
      else if f = check_still_training then
        (if auto_promote p \<and> current p + 1 < noV p then (Inr (BoolV True), p)
         else (Inr (BoolV False), p\<lparr>exhausted := True\<rparr>))
      else if f = incVinT then (Inr NoneV, p\<lparr>T_block := T_block p @ V_block p\<rparr>)
      else if f = next_Vset then (Inr NoneV, p\<lparr>current := current p + 1\<rparr>)
      else if f = do_final_build then (Inr (BoolV (final_requested p)), p)
      else (Inr NoneV, p))"

definition partition_getattr :: "partition \<Rightarrow> val \<Rightarrow> string \<Rightarrow> error + val" where
  "partition_getattr p v name =
     (if name = ''noV'' then Inr (IntV (int (noV p))) else Inl AttributeError)"

definition partition_env :: "partition collaborators" where
  "partition_env = \<lparr>perform = partition_perform, getattr = partition_getattr\<rparr>"

definition emu0 :: emulator where
  "emu0 = \<lparr>self = Obj 0, config = Obj 1, beliefs = Obj 2, par = Obj 3, basis = Obj 4,
     tv_conf = Obj 5, all_data = Obj 6, training = Obj 7, validation = Obj 8, post = Obj 9,
     opt_T = Obj 10, K = Obj 11\<rparr>"

definition plan0 :: partition where
  "plan0 = \<lparr>noV = 2, current = 0, auto_promote = True, exhausted = False,
     final_requested = True, T_block = [0, 1, 2], V_blocks = [[3, 4], [5]]\<rparr>"

section \<open>Diagnostics that return other values\<close>

text \<open>
  The two diagnostics of a round are \<open>mahalanobis_distance\<close> and \<open>indiv_standard_error\<close>.
  \<open>with_diagnostics d env\<close> is the environment \<open>env\<close> in which a diagnostic that returns
  normally returns the value \<open>d f as w\<close> instead of its own; what the call does to the world
  and the exceptions it raises are untouched. \<open>observed\<close> is a run with the values returned by
  the diagnostics blanked in the log. \<open>follows p q\<close>: from states that agree on the world and on
  the blanked log, whenever \<open>p\<close> returns, \<open>q\<close> returns the same result in a state that agrees.
\<close>

definition diagnostic :: "fn \<Rightarrow> bool" where
  "diagnostic f \<longleftrightarrow> f = mahalanobis_distance \<or> f = indiv_standard_error"

definition with_diagnostics ::
  "(fn \<Rightarrow> arg list \<Rightarrow> 'w \<Rightarrow> val) \<Rightarrow> 'w collaborators \<Rightarrow> 'w collaborators" where
  "with_diagnostics d env =
     env\<lparr>perform := (\<lambda>f as w.
       if diagnostic f then
         (case perform env f as w of
            (Inr v, w') \<Rightarrow> (Inr (d f as w), w')
          | (Inl e, w') \<Rightarrow> (Inl e, w'))
       else perform env f as w)\<rparr>"

definition hide_diagnostic :: "'w entry \<Rightarrow> 'w entry" where
  "hide_diagnostic x =
     (case x of
        (Call f as, Inr v, wd) \<Rightarrow> if diagnostic f then (Call f as, Inr NoneV, wd) else x
      | _ \<Rightarrow> x)"

definition observed :: "((error + 'a) \<times> 'w state) option \<Rightarrow> ((error + 'a) \<times> 'w state) option" where
  "observed run = map_option (\<lambda>(r, w, lg). (r, w, map hide_diagnostic lg)) run"

definition alike :: "'w state \<Rightarrow> 'w state \<Rightarrow> bool" where
  "alike s t \<longleftrightarrow> fst s = fst t \<and> map hide_diagnostic (snd s) = map hide_diagnostic (snd t)"

definition follows :: "('w, 'a) prog \<Rightarrow> ('w, 'a) prog \<Rightarrow> bool" where
  "follows p q \<longleftrightarrow>
     (\<forall>s t r s'. alike s t \<longrightarrow> p s = Some (r, s') \<longrightarrow> (\<exists>t'. q t = Some (r, t') \<and> alike s' t'))"

definition train_events :: "emulator \<Rightarrow> bool \<Rightarrow> bool \<Rightarrow> event list" where
  "train_events E auto message =
     Call auto_train [Pos (tv_conf E), Pos (BoolV auto)]
     # Call doing_training [Pos (tv_conf E)]
     # round_events E message True
     @ Call do_final_build [Pos (tv_conf E)]
     # final_events E message True"

section \<open>Reading the log of a run\<close>

text \<open>
  \<open>reaches_ise E r suf\<close>, for the entries \<open>suf\<close> that follow a call of \<^verbatim>\<open>doing_training\<close> in
  the log of a run with result \<open>r\<close>: the sixth of them is the call
  \<^verbatim>\<open>E.post.indiv_standard_error(ise=2.0)\<close>, or there are fewer than six and the last one is the
  call whose exception ended the run.
\<close>

definition reaches_ise :: "emulator \<Rightarrow> (error + val) \<Rightarrow> 'w entry list \<Rightarrow> bool" where
  "reaches_ise E r suf \<longleftrightarrow>
     (6 \<le> length suf \<and>
        fst (suf ! 5) = Call indiv_standard_error [Pos (post E), Key ''ise'' (FloatV 2.0)]) \<or>
     (length suf < 6 \<and> suf \<noteq> [] \<and> (\<exists>e. r = Inl e \<and> fst (snd (last suf)) = Inl e))"

text \<open>The events logged after the last \<^verbatim>\<open>E.post.remake()\<close>; all of them when there is none.\<close>

definition since_posterior_remake :: "emulator \<Rightarrow> event list \<Rightarrow> event list" where
  "since_posterior_remake E evs =
     rev (takeWhile (\<lambda>e. e \<noteq> Call remake [Pos (post E)]) (rev evs))"

text \<open>The events of a run, in order; none when the run does not return.\<close>

definition events_of :: "((error + 'a) \<times> 'w state) option \<Rightarrow> event list" where
  "events_of run = (case run of None \<Rightarrow> [] | Some (r, (w, lg)) \<Rightarrow> map fst lg)"

text \<open>
  Modelled from the spec: a partition plan with no validation block (\<^verbatim>\<open>noV = 0\<close>), for which
  a final build is requested.
\<close>

definition plan_without_validation :: partition where
  "plan_without_validation = \<lparr>noV = 0, current = 0, auto_promote = True, exhausted = False,
     final_requested = True, T_block = [0, 1, 2], V_blocks = []\<rparr>"

section \<open>plot\<close>

text \<open>
  \<^verbatim>\<open>
  def plot(E, plot_dims, fixed_dims, fixed_vals, mean_or_var="mean", customLabels=[]):
      dim = E.training.inputs[0].size
      print("\n***Generating plot***")
      if len(plot_dims) == 1 and dim>1:
          one_d = True
          if customLabels == []:
              xlabel="input " + str(plot_dims[0])
              ylabel="output " + str(E.beliefs.output)
          else:
              xlabel=customLabels[0]
              ylabel=customLabels[1]
      else:
          one_d =False
          if customLabels == []:
              xlabel="input " + str(plot_dims[0])
              if dim == 1:
                  ylabel="output "
              else:
                  ylabel="input " + str(plot_dims[1])
          else:
              xlabel=customLabels[0]
              ylabel=customLabels[1]
      pn=30
      full_xrange = __emup.make_inputs(dim, pn, pn, plot_dims, fixed_dims, fixed_vals, one_d)
      predict = __emuc.Data(full_xrange, None, E.basis, E.par, E.beliefs, E.K)
      post = __emuc.Posterior(predict, E.training, E.par, E.beliefs, E.K)
      __emup.plotting(dim, post, pn, pn, one_d, mean_or_var, labels=[xlabel,ylabel])
      return None
  \<close>
  The arguments are typed as the docstring has them: \<^verbatim>\<open>plot_dims\<close> and \<^verbatim>\<open>fixed_dims\<close> are
  lists of ints, \<^verbatim>\<open>fixed_vals\<close> a list of floats, \<^verbatim>\<open>mean_or_var\<close> a string and
  \<^verbatim>\<open>customLabels\<close> a list. Python's \<^verbatim>\<open>str\<close> is a parameter, \<open>str_of\<close>.
\<close>

text \<open>A computation on values that returns or raises.\<close>

definition bind_err :: "error + 'a \<Rightarrow> ('a \<Rightarrow> error + 'b) \<Rightarrow> error + 'b" where
  "bind_err x f = (case x of Inl e \<Rightarrow> Inl e | Inr a \<Rightarrow> f a)"

text \<open>\<^verbatim>\<open>xs[i]\<close> on a list, for an index \<open>i \<ge> 0\<close>.\<close>

definition item :: "'a list \<Rightarrow> nat \<Rightarrow> error + 'a" where
  "item xs i = (if i < length xs then Inr (xs ! i) else Inl IndexError)"

text \<open>\<^verbatim>\<open>v[i]\<close> on a value: an array is the list of its rows, an item of a string is a
  string of one character, and a value that is no sequence raises \<^verbatim>\<open>TypeError\<close>.\<close>

fun subscript :: "val \<Rightarrow> nat \<Rightarrow> error + val" where
  "subscript (ListV vs) i = item vs i"
| "subscript (StrV s) i = (case item s i of Inl e \<Rightarrow> Inl e | Inr c \<Rightarrow> Inr (StrV [c]))"
| "subscript v i = Inl (Raised ''TypeError'')"

text \<open>\<^verbatim>\<open>dim > 1\<close> and \<^verbatim>\<open>dim == 1\<close>.\<close>

fun gt_one :: "val \<Rightarrow> error + bool" where
  "gt_one (IntV n) = Inr (1 < n)"
| "gt_one (FloatV x) = Inr (1 < x)"
| "gt_one (BoolV b) = Inr False"
| "gt_one v = Inl (Raised ''TypeError'')"

fun eq_one :: "val \<Rightarrow> bool" where
  "eq_one (IntV n) = (n = 1)"
| "eq_one (FloatV x) = (x = 1)"
| "eq_one (BoolV b) = b"
| "eq_one v = False"

text \<open>A computation that only reads the collaborators' state: nothing is logged.\<close>

definition reading :: "('w \<Rightarrow> error + 'a) \<Rightarrow> ('w, 'a) prog" where
  "reading f = (\<lambda>(w, lg). Some (f w, (w, lg)))"

text \<open>\<^verbatim>\<open>E.training.inputs[0].size\<close> (line 140).\<close>

definition dim_of :: "'w collaborators \<Rightarrow> emulator \<Rightarrow> 'w \<Rightarrow> error + val" where
  "dim_of env E w =
     bind_err (getattr env w (training E) ''inputs'') (\<lambda>inputs.
     bind_err (subscript inputs 0) (\<lambda>row.
     getattr env w row ''size''))"

text \<open>The condition \<^verbatim>\<open>len(plot_dims) == 1 and dim>1\<close> (line 145): \<^verbatim>\<open>and\<close> evaluates
  \<^verbatim>\<open>dim>1\<close> only when the length is 1.\<close>

definition one_d_of :: "int list \<Rightarrow> val \<Rightarrow> error + bool" where
  "one_d_of plot_dims dimension = (if length plot_dims = 1 then gt_one dimension else Inr False)"

text \<open>The labels \<^verbatim>\<open>(xlabel, ylabel)\<close> (lines 148 to 167).\<close>

definition custom_labels :: "val list \<Rightarrow> error + val \<times> val" where
  "custom_labels customLabels =
     bind_err (item customLabels 0) (\<lambda>xlabel.
     bind_err (item customLabels 1) (\<lambda>ylabel.
     Inr (xlabel, ylabel)))"

definition labels_of ::
  "'w collaborators \<Rightarrow> (val \<Rightarrow> string) \<Rightarrow> emulator \<Rightarrow> int list \<Rightarrow> val \<Rightarrow> bool \<Rightarrow> val list
     \<Rightarrow> 'w \<Rightarrow> error + val \<times> val" where
  "labels_of env str_of E plot_dims dimension one_d customLabels w =
     (if one_d then
        (if customLabels = [] then
           bind_err (item plot_dims 0) (\<lambda>p0.
           bind_err (getattr env w (beliefs E) ''output'') (\<lambda>out.
           Inr (StrV (''input '' @ str_of (IntV p0)), StrV (''output '' @ str_of out))))
         else custom_labels customLabels)
      else
        (if customLabels = [] then
           bind_err (item plot_dims 0) (\<lambda>p0.
           if eq_one dimension then Inr (StrV (''input '' @ str_of (IntV p0)), StrV ''output '')
           else
             bind_err (item plot_dims 1) (\<lambda>p1.
             Inr (StrV (''input '' @ str_of (IntV p0)), StrV (''input '' @ str_of (IntV p1)))))
         else custom_labels customLabels))"

text \<open>\<^verbatim>\<open>pn=30\<close> (line 170).\<close>

definition pn :: int where
  "pn = 30"

text \<open>Lines 172 to 180: the grid, the prediction data, the posterior, the plotting call.\<close>

definition plot_calls ::
  "'w collaborators \<Rightarrow> emulator \<Rightarrow> val \<Rightarrow> bool \<Rightarrow> int list \<Rightarrow> int list \<Rightarrow> real list \<Rightarrow> string
     \<Rightarrow> val \<times> val \<Rightarrow> ('w, val) prog" where
  "plot_calls env E dimension one_d plot_dims fixed_dims fixed_vals mean_or_var labels =
     andthen (invoke env make_inputs
        [Pos dimension, Pos (IntV pn), Pos (IntV pn), Pos (ListV (map IntV plot_dims)),
         Pos (ListV (map IntV fixed_dims)), Pos (ListV (map FloatV fixed_vals)),
         Pos (BoolV one_d)]) (\<lambda>full_xrange.
     andthen (invoke env Data
        [Pos full_xrange, Pos NoneV, Pos (basis E), Pos (par E), Pos (beliefs E), Pos (K E)])
        (\<lambda>predict.
     andthen (invoke env Posterior
        [Pos predict, Pos (training E), Pos (par E), Pos (beliefs E), Pos (K E)]) (\<lambda>pst.
     andthen (stmt env plotting
        [Pos dimension, Pos pst, Pos (IntV pn), Pos (IntV pn), Pos (BoolV one_d),
         Pos (StrV mean_or_var), Key ''labels'' (ListV [fst labels, snd labels])]) (\<lambda>u.
     ret NoneV))))"

definition plot ::
  "'w collaborators \<Rightarrow> (val \<Rightarrow> string) \<Rightarrow> emulator \<Rightarrow> int list \<Rightarrow> int list \<Rightarrow> real list
     \<Rightarrow> string \<Rightarrow> val list \<Rightarrow> ('w, val) prog" where
  "plot env str_of E plot_dims fixed_dims fixed_vals mean_or_var customLabels =
     andthen (reading (dim_of env E)) (\<lambda>dimension.
     andthen (py_print (CHR 0x0A # ''***Generating plot***'')) (\<lambda>u.
     andthen (reading (\<lambda>w. one_d_of plot_dims dimension)) (\<lambda>one_d.
     andthen (reading (labels_of env str_of E plot_dims dimension one_d customLabels)) (\<lambda>labels.
     plot_calls env E dimension one_d plot_dims fixed_dims fixed_vals mean_or_var labels))))"



section \<open>Collaborators that construct new objects\<close>

text \<open>
  Modelled from the spec: the classes and functions of \<^verbatim>\<open>_emulatorclasses\<close>,
  \<^verbatim>\<open>_emulatoroptimise\<close>, \<^verbatim>\<open>emulatorkernels\<close> and \<^verbatim>\<open>emulatorplotting\<close> are not in
  \<^verbatim>\<open>emulatorfunctions.py\<close>. Here every constructor returns a new object, \<^verbatim>\<open>choose_T\<close> and
  \<^verbatim>\<open>choose_V\<close> return a pair of new arrays, \<^verbatim>\<open>auto_configure_kernel\<close> and \<^verbatim>\<open>plotting\<close>
  return \<^verbatim>\<open>None\<close>, and the optimiser is the one that changes the "Hyperparameter Vector".
  The training inputs of \<open>emu0\<close> are two points of dimension 2.
\<close>

record store =
  allocated :: nat
  hyperparameters :: int

definition fresh_perform :: "fn \<Rightarrow> arg list \<Rightarrow> store \<Rightarrow> (error + val) \<times> store" where
  "fresh_perform f as s =
     (if f = llhoptimize_full then (Inr NoneV, s\<lparr>hyperparameters := hyperparameters s + 1\<rparr>)
      else if f = plotting \<or> f = auto_configure_kernel then (Inr NoneV, s)
      else if f = choose_T \<or> f = choose_V then
        (Inr (ListV [Obj (100 + allocated s), Obj (101 + allocated s)]),
         s\<lparr>allocated := allocated s + 2\<rparr>)
      else (Inr (Obj (100 + allocated s)), s\<lparr>allocated := allocated s + 1\<rparr>))"

definition fresh_getattr :: "store \<Rightarrow> val \<Rightarrow> string \<Rightarrow> error + val" where
  "fresh_getattr s v name =
     (if name = ''inputs'' \<and> v = training emu0 then
        Inr (ListV [ListV [FloatV 0, FloatV 1], ListV [FloatV 1, FloatV 0]])
      else if name = ''size'' then
        (case v of ListV xs \<Rightarrow> Inr (IntV (int (length xs))) | _ \<Rightarrow> Inl AttributeError)
      else if name = ''output'' then Inr (IntV 0)
      else if name = ''tv_config'' then Inr (ListV [IntV 10, IntV 0, IntV 2])
      else if name = ''beliefs'' \<or> name = ''inputs'' \<or> name = ''outputs'' then Inr (StrV name)
      else Inl AttributeError)"

definition fresh_env :: "store collaborators" where
  "fresh_env = \<lparr>perform = fresh_perform, getattr = fresh_getattr\<rparr>"

definition store0 :: store where
  "store0 = \<lparr>allocated = 0, hyperparameters = 0\<rparr>"

text \<open>\<^verbatim>\<open>str\<close> on an int, in decimal. The runs below apply it to ints only; any other value
  gives the empty string here.\<close>

fun decimal :: "nat \<Rightarrow> string" where
  "decimal n =
     (if n < 10 then [''0123456789'' ! n]
      else decimal (n div 10) @ [''0123456789'' ! (n mod 10)])"

definition str_of_int :: "val \<Rightarrow> string" where
  "str_of_int v =
     (case v of
        IntV n \<Rightarrow> (if n < 0 then CHR ''-'' # decimal (nat (- n)) else decimal (nat n))
      | _ \<Rightarrow> [])"

section \<open>setup\<close>

text \<open>
  \<^verbatim>\<open>
  def setup(config_file, datashuffle=True, scaleinputs=True):
      config = __emuc.Config(config_file)
      beliefs = __emuc.Beliefs(config.beliefs)
      par = __emuc.Hyperparams(beliefs)
      basis = __emuc.Basis(beliefs)
      tv_conf = __emuc.TV_config(*(config.tv_config))
      all_data = __emuc.All_Data(config.inputs, config.outputs, tv_conf,
        beliefs, par, datashuffle, scaleinputs)
      K = __emuk.build_kernel(beliefs)
      __emuk.auto_configure_kernel(K, par, all_data)
      (x_T, y_T) = all_data.choose_T()
      (x_V, y_V) = all_data.choose_V()
      training = __emuc.Data(x_T, y_T, basis, par, beliefs, K)
      validation = __emuc.Data(x_V, y_V, basis, par, beliefs, K)
      post = __emuc.Posterior(validation, training, par, beliefs, K)
      opt_T = __emuo.Optimize(training, basis, par, beliefs, config)
      return __emuc.Emulator(config, beliefs, par, basis, tv_conf,
        all_data, training, validation, post, opt_T, K)
  \<close>
  The function is named \<open>setup_emulator\<close> here. A tuple is the list of its components.
\<close>

text \<open>\<^verbatim>\<open>f(*v)\<close>: the items of a sequence as positional arguments.\<close>

definition star :: "val \<Rightarrow> error + arg list" where
  "star v =
     (case v of
        ListV vs \<Rightarrow> Inr (map Pos vs)
      | StrV s \<Rightarrow> Inr (map (\<lambda>c. Pos (StrV [c])) s)
      | _ \<Rightarrow> Inl (Raised ''TypeError''))"

text \<open>\<^verbatim>\<open>(a, b) = v\<close>: a sequence of two items is unpacked, one of another length raises
  \<^verbatim>\<open>ValueError\<close>, and what is no sequence raises \<^verbatim>\<open>TypeError\<close>.\<close>

definition unpack2 :: "val \<Rightarrow> error + val \<times> val" where
  "unpack2 v =
     (case v of
        ListV vs \<Rightarrow>
          (case vs of [a, b] \<Rightarrow> Inr (a, b) | _ \<Rightarrow> Inl (Raised ''ValueError''))
      | StrV s \<Rightarrow>
          (case s of [a, b] \<Rightarrow> Inr (StrV [a], StrV [b]) | _ \<Rightarrow> Inl (Raised ''ValueError''))
      | _ \<Rightarrow> Inl (Raised ''TypeError''))"

definition setup_emulator :: "'w collaborators \<Rightarrow> string \<Rightarrow> bool \<Rightarrow> bool \<Rightarrow> ('w, val) prog" where
  "setup_emulator env config_file datashuffle scaleinputs =
     andthen (invoke env Config [Pos (StrV config_file)]) (\<lambda>config.
     andthen (attr env config ''beliefs'') (\<lambda>beliefs_file.
     andthen (invoke env Beliefs [Pos beliefs_file]) (\<lambda>beliefs.
     andthen (invoke env Hyperparams [Pos beliefs]) (\<lambda>par.
     andthen (invoke env Basis [Pos beliefs]) (\<lambda>basis.
     andthen (attr env config ''tv_config'') (\<lambda>tv_config.
     andthen (reading (\<lambda>w. star tv_config)) (\<lambda>tv_args.
     andthen (invoke env TV_config tv_args) (\<lambda>tv_conf.
     andthen (attr env config ''inputs'') (\<lambda>inputs.
     andthen (attr env config ''outputs'') (\<lambda>outputs.
     andthen (invoke env All_Data
        [Pos inputs, Pos outputs, Pos tv_conf, Pos beliefs, Pos par, Pos (BoolV datashuffle),
         Pos (BoolV scaleinputs)]) (\<lambda>all_data.
     andthen (invoke env build_kernel [Pos beliefs]) (\<lambda>K.
     andthen (stmt env auto_configure_kernel [Pos K, Pos par, Pos all_data]) (\<lambda>u.
     andthen (invoke env choose_T [Pos all_data]) (\<lambda>chosen_T.
     andthen (reading (\<lambda>w. unpack2 chosen_T)) (\<lambda>(x_T, y_T).
     andthen (invoke env choose_V [Pos all_data]) (\<lambda>chosen_V.
     andthen (reading (\<lambda>w. unpack2 chosen_V)) (\<lambda>(x_V, y_V).
     andthen (invoke env Data [Pos x_T, Pos y_T, Pos basis, Pos par, Pos beliefs, Pos K])
        (\<lambda>training.
     andthen (invoke env Data [Pos x_V, Pos y_V, Pos basis, Pos par, Pos beliefs, Pos K])
        (\<lambda>validation.
     andthen (invoke env Posterior [Pos validation, Pos training, Pos par, Pos beliefs, Pos K])
        (\<lambda>post.
     andthen (invoke env Optimize [Pos training, Pos basis, Pos par, Pos beliefs, Pos config])
        (\<lambda>opt_T.
     invoke env Emulator
        [Pos config, Pos beliefs, Pos par, Pos basis, Pos tv_conf, Pos all_data, Pos training,
         Pos validation, Pos post, Pos opt_T, Pos K])))))))))))))))))))))"

text \<open>The events of a run with what each of them returned or raised.\<close>

definition calls_of :: "((error + 'a) \<times> 'w state) option \<Rightarrow> (event \<times> (error + val)) list" where
  "calls_of run =
     (case run of None \<Rightarrow> [] | Some (r, (w, lg)) \<Rightarrow> map (\<lambda>x. (fst x, fst (snd x))) lg)"

section \<open>Rounds, builds and folds on a partition plan\<close>

text \<open>
  Counted in a log: the rounds run (the calls of \<^verbatim>\<open>doing_training\<close> that returned a true
  value), the final builds run (their first statement is the \<^verbatim>\<open>print\<close>), the calls of
  \<^verbatim>\<open>do_final_build\<close>, and the validation sets consumed (the calls of \<^verbatim>\<open>next_Vset\<close>).
\<close>

definition rounds_run :: "emulator \<Rightarrow> 'w entry list \<Rightarrow> nat" where
  "rounds_run E lg =
     length (filter (\<lambda>x. fst x = Call doing_training [Pos (tv_conf E)] \<and> answer x) lg)"

definition builds_run :: "'w entry list \<Rightarrow> nat" where
  "builds_run lg =
     length (filter (\<lambda>x. fst x = Print (CHR 0x0A # ''***Doing final build***'')) lg)"

definition builds_asked :: "emulator \<Rightarrow> 'w entry list \<Rightarrow> nat" where
  "builds_asked E lg =
     length (filter (\<lambda>x. fst x = Call do_final_build [Pos (tv_conf E)]) lg)"

definition sets_consumed :: "emulator \<Rightarrow> 'w entry list \<Rightarrow> nat" where
  "sets_consumed E lg =
     length (filter (\<lambda>x. fst x = Call next_Vset [Pos (tv_conf E)]) lg)"

text \<open>
  \<open>folds_only E p lg\<close>: along the log \<open>lg\<close>, which starts from the plan \<open>p\<close>, the training block
  changes at the calls \<^verbatim>\<open>E.post.incVinT()\<close> only, and there the validation block that is
  current at that moment is appended to it. \<open>last_world w lg\<close> is the state the log ends in.
\<close>

fun folds_only :: "emulator \<Rightarrow> partition \<Rightarrow> partition entry list \<Rightarrow> bool" where
  "folds_only E p [] = True"
| "folds_only E p (x # xs) =
     ((if fst x = Call incVinT [Pos (post E)]
       then T_block (snd (snd x)) = T_block p @ V_block p
       else T_block (snd (snd x)) = T_block p) \<and>
      folds_only E (snd (snd x)) xs)"

definition last_world :: "'w \<Rightarrow> 'w entry list \<Rightarrow> 'w" where
  "last_world w lg = (if lg = [] then w else snd (snd (last lg)))"

text \<open>
  Modelled from the spec: the validation sets that remain on a plan (none once it is
  \<open>Exhausted\<close>), and the plan a round leaves: "if more validation blocks remain: fold current
  validation into training, advance the partition", else the plan is \<open>Exhausted\<close>.
\<close>

definition sets_left :: "partition \<Rightarrow> nat" where
  "sets_left p = (if exhausted p then 0 else noV p - current p)"

definition plan_after_round :: "partition \<Rightarrow> partition" where
  "plan_after_round p =
     (if auto_promote p \<and> current p + 1 < noV p
      then p\<lparr>T_block := T_block p @ V_block p, current := current p + 1\<rparr>
      else p\<lparr>exhausted := True\<rparr>)"

section \<open>The log of a run\<close>

lemma andthen_apply:
  "andthen m f st =
     (case m st of None \<Rightarrow> None
      | Some (Inl e, st') \<Rightarrow> Some (Inl e, st')
      | Some (Inr a, st') \<Rightarrow> f a st')"
  by (simp add: andthen_def)

lemma invoke_apply:
  "invoke env f as (w, lg) =
     Some (fst (perform env f as w),
           (snd (perform env f as w),
            lg @ [(Call f as, fst (perform env f as w), snd (perform env f as w))]))"
  by (simp add: invoke_def split: prod.splits)

lemma stmt_apply:
  "stmt env f as (w, lg) =
     (case perform env f as w of
        (Inl e, w') \<Rightarrow> Some (Inl e, (w', lg @ [(Call f as, Inl e, w')]))
      | (Inr v, w') \<Rightarrow> Some (Inr (), (w', lg @ [(Call f as, Inr v, w')])))"
  by (simp add: stmt_def invoke_def andthen_def ret_def split: prod.splits sum.splits)

lemma py_print_apply:
  "py_print s (w, lg) = Some (Inr (), (w, lg @ [(Print s, Inr NoneV, w)]))"
  by (simp add: py_print_def)

lemma block_append: "block (xs @ ys) = andthen (block xs) (\<lambda>_. block ys)"
proof (induction xs)
  case Nil
  show ?case by (rule ext) (simp add: andthen_def ret_def)
next
  case (Cons x xs)
  show ?case
    by (rule ext) (simp add: Cons andthen_def split: option.splits prod.splits sum.splits)
qed

lemma calls_log:
  "block (map (\<lambda>(f, as). stmt env f as) cs) (w, lg) = Some (r, (w', lg')) \<Longrightarrow>
     \<exists>new. lg' = lg @ new \<and> outcome_ok r new (map (\<lambda>(f, as). Call f as) cs)"
proof (induction cs arbitrary: w lg)
  case Nil
  then show ?case by (auto simp: ret_def outcome_ok_def)
next
  case (Cons c cs)
  obtain f as where c: "c = (f, as)" by (cases c)
  obtain r1 w1 where p: "perform env f as w = (r1, w1)" by (cases "perform env f as w")
  show ?case
  proof (cases r1)
    case (Inl e)
    with Cons.prems c p show ?thesis
      by (auto simp: andthen_apply stmt_apply outcome_ok_def)
  next
    case (Inr v)
    with Cons.prems c p
    have "block (map (\<lambda>(f, as). stmt env f as) cs) (w1, lg @ [(Call f as, Inr v, w1)]) = Some (r, (w', lg'))"
      by (simp add: andthen_apply stmt_apply)
    from Cons.IH[OF this] obtain new where
      n: "lg' = (lg @ [(Call f as, Inr v, w1)]) @ new"
         "outcome_ok r new (map (\<lambda>(f, as). Call f as) cs)" by blast
    have "outcome_ok r ((Call f as, Inr v, w1) # new) (map (\<lambda>(f, as). Call f as) (c # cs))"
      using n(2) c by (auto simp: outcome_ok_def split: sum.splits)
    with n(1) show ?thesis by auto
  qed
qed

lemma calls_total:
  "\<exists>r st'. block (map (\<lambda>(f, as). stmt env f as) cs) st = Some (r, st')"
proof (induction cs arbitrary: st)
  case Nil
  show ?case by (simp add: ret_def)
next
  case (Cons c cs)
  obtain f as where c: "c = (f, as)" by (cases c)
  obtain w lg where st: "st = (w, lg)" by (cases st)
  obtain r1 w1 where p: "perform env f as w = (r1, w1)" by (cases "perform env f as w")
  show ?case
  proof (cases r1)
    case (Inl e)
    with c st p show ?thesis by (simp add: andthen_apply stmt_apply)
  next
    case (Inr v)
    with c st p Cons.IH[of "(w1, lg @ [(Call f as, Inr v, w1)])"] show ?thesis
      by (simp add: andthen_apply stmt_apply)
  qed
qed

lemma py_if_invoke_apply:
  "py_if (invoke env f as) body (w, lg) =
     (case perform env f as w of
        (Inl e, w1) \<Rightarrow> Some (Inl e, (w1, lg @ [(Call f as, Inl e, w1)]))
      | (Inr v, w1) \<Rightarrow>
          if truthy v then body (w1, lg @ [(Call f as, Inr v, w1)])
          else Some (Inr (), (w1, lg @ [(Call f as, Inr v, w1)])))"
  by (simp add: py_if_def andthen_apply invoke_apply ret_def split: prod.splits sum.splits)

lemma next_round_log:
  assumes "next_round env E (w, lg) = Some (r, (w', lg'))"
  shows "\<exists>new. lg' = lg @ new \<and> outcome_ok r new (next_events E)"
proof -
  let ?cs = "[ (incVinT, [Pos (post E)]), (next_Vset, [Pos (tv_conf E)]),
               (choose_new_V, [Pos (all_data E), Pos (validation E)]),
               (remake, [Pos (training E)]), (remake, [Pos (validation E)]),
               (remake, [Pos (post E)]) ]"
  let ?y = "(Print ''Preparing for next round of training...'', Inr NoneV, w)"
  have "next_round env E (w, lg) = block (map (\<lambda>(f, as). stmt env f as) ?cs) (w, lg @ [?y])"
    by (simp add: next_round_def andthen_apply py_print_apply)
  with assms have "block (map (\<lambda>(f, as). stmt env f as) ?cs) (w, lg @ [?y]) = Some (r, (w', lg'))"
    by simp
  from calls_log[OF this] obtain new where
    n: "lg' = (lg @ [?y]) @ new" "outcome_ok r new (map (\<lambda>(f, as). Call f as) ?cs)" by blast
  have "outcome_ok r (?y # new) (next_events E)"
    using n(2) by (auto simp: outcome_ok_def next_events_def split: sum.splits)
  with n(1) show ?thesis by auto
qed

lemma round_log:
  assumes "train_round env E message (w, lg) = Some (r, (w', lg'))"
  shows "\<exists>new. lg' = lg @ new \<and> round_ok E message r new"
proof -
  let ?cs = "[ (llhoptimize_full, [Pos (opt_T E), Pos (config E), Pos (BoolV message)]),
               (remake, [Pos (training E)]), (remake, [Pos (validation E)]),
               (remake, [Pos (post E)]), (mahalanobis_distance, [Pos (post E)]),
               (indiv_standard_error, [Pos (post E), Key ''ise'' (FloatV 2.0)]),
               (final_beliefs, [Pos (beliefs E), Pos (self E), Pos (BoolV False)]),
               (final_design_points, [Pos (post E), Pos (self E), Pos (BoolV False)]) ]"
  let ?c = "Call check_still_training [Pos (tv_conf E)]"
  let ?tail = "py_if (invoke env check_still_training [Pos (tv_conf E)]) (next_round env E)"
  have evs: "map (\<lambda>(f, as). Call f as) ?cs = validation_events E message"
    by (simp add: validation_events_def)
  have split: "train_round env E message =
      andthen (block (map (\<lambda>(f, as). stmt env f as) ?cs)) (\<lambda>_. block [?tail])"
  proof -
    have "train_round env E message = block (map (\<lambda>(f, as). stmt env f as) ?cs @ [?tail])"
      by (simp add: train_round_def)
    then show ?thesis by (simp only: block_append)
  qed
  obtain r1 w1 lg1 where b1: "block (map (\<lambda>(f, as). stmt env f as) ?cs) (w, lg) = Some (r1, (w1, lg1))"
    using calls_total[of env ?cs "(w, lg)"] by auto
  from calls_log[OF b1] obtain new1 where
    n1: "lg1 = lg @ new1" "outcome_ok r1 new1 (validation_events E message)"
    unfolding evs by blast
  show ?thesis
  proof (cases r1)
    case (Inl e)
    with assms b1 have "r = Inl e" "w' = w1" "lg' = lg1"
      by (auto simp: split andthen_apply)
    moreover have "outcome_ok (Inl e) new1 (round_events E message True)"
      using n1(2) Inl by (auto simp: outcome_ok_def round_events_def)
    ultimately show ?thesis using n1(1) by (auto simp: round_ok_def)
  next
    case (Inr u1)
    with n1(2) have m1: "map fst new1 = validation_events E message"
      by (simp add: outcome_ok_def)
    then have "length (map fst new1) = 8"
      by (simp add: validation_events_def)
    then have len1: "length new1 = 8" by simp
    from assms b1 Inr have tl: "?tail (w1, lg1) = Some (r, (w', lg'))"
      by (simp add: split andthen_apply ret_def split: option.splits prod.splits sum.splits)
    obtain rc wc where pc: "perform env check_still_training [Pos (tv_conf E)] w1 = (rc, wc)"
      by (cases "perform env check_still_training [Pos (tv_conf E)] w1")
    let ?x = "(?c, rc, wc)"
    show ?thesis
    proof (cases rc)
      case (Inl e)
      with tl pc have "r = Inl e" "lg' = lg1 @ [?x]"
        by (auto simp: py_if_invoke_apply)
      moreover have "outcome_ok (Inl e) (new1 @ [?x]) (round_events E message True)"
        using m1 Inl by (simp add: outcome_ok_def round_events_def)
      ultimately show ?thesis using n1(1) by (auto simp: round_ok_def)
    next
      case (Inr v)
      show ?thesis
      proof (cases "truthy v")
        case False
        with tl pc Inr have "r = Inr ()" "lg' = lg1 @ [?x]"
          by (auto simp: py_if_invoke_apply)
        moreover have "round_ok E message (Inr ()) (new1 @ [?x])"
          using m1 len1 Inr False by (simp add: round_ok_def round_events_def nth_append)
        ultimately show ?thesis using n1(1) by auto
      next
        case True
        with tl pc Inr have "next_round env E (wc, lg1 @ [?x]) = Some (r, (w', lg'))"
          by (simp add: py_if_invoke_apply)
        from next_round_log[OF this] obtain new2 where
          n2: "lg' = (lg1 @ [?x]) @ new2" "outcome_ok r new2 (next_events E)" by blast
        have "round_ok E message r (new1 @ [?x] @ new2)"
          using m1 len1 Inr True n2(2)
          by (auto simp: round_ok_def round_events_def nth_append outcome_ok_def split: sum.splits)
        with n1(1) n2(1) show ?thesis by auto
      qed
    qed
  qed
qed

lemma while_log:
  assumes body: "\<And>st r st'. body st = Some (r, st') \<Longrightarrow> \<exists>new. snd st' = snd st @ new \<and> B r new"
  assumes run: "py_while (invoke env f as) body st = Some (r, st')"
  shows "\<exists>segs rest. snd st' = snd st @ concat segs @ rest \<and>
           list_all (while_round (Call f as) B) segs \<and> while_exit (Call f as) B r rest"
proof -
  define P where "P c bd s y \<longleftrightarrow>
      (c = invoke env f as \<longrightarrow> bd = body \<longrightarrow>
        (\<exists>segs rest. snd (snd y) = snd s @ concat segs @ rest \<and>
           list_all (while_round (Call f as) B) segs \<and> while_exit (Call f as) B (fst y) rest))"
    for c :: "('a, val) prog" and bd :: "('a, unit) prog" and s :: "'a state"
      and y :: "(error + unit) \<times> 'a state"
  have "P (invoke env f as) body st (r, st')"
  proof (rule py_while.raw_induct[where P = P, OF _ run])
    fix pw :: "('a, val) prog \<Rightarrow> ('a, unit) prog \<Rightarrow> 'a state \<Rightarrow> ((error + unit) \<times> 'a state) option"
    fix c bd s y
    assume IH: "\<And>c bd s y. pw c bd s = Some y \<Longrightarrow> P c bd s y"
    assume step: "(case c s of None \<Rightarrow> None | Some (Inl e, st1) \<Rightarrow> Some (Inl e, st1)
        | Some (Inr b, st1) \<Rightarrow>
            if truthy b
            then case bd st1 of None \<Rightarrow> None
                 | Some (Inl e, st2) \<Rightarrow> Some (Inl e, st2)
                 | Some (Inr u, st2) \<Rightarrow> pw c bd st2
            else Some (Inr (), st1)) = Some y"
    show "P c bd s y"
      unfolding P_def
    proof (intro impI)
      assume c: "c = invoke env f as" and bd: "bd = body"
      obtain w lg where s: "s = (w, lg)" by (cases s)
      obtain rc wc where pc: "perform env f as w = (rc, wc)" by (cases "perform env f as w")
      let ?x = "(Call f as, rc, wc)"
      have nil: "list_all (while_round (Call f as) B) []" by simp
      have cs: "c s = Some (rc, (wc, lg @ [?x]))"
        by (simp add: c s invoke_apply pc)
      show "\<exists>segs rest. snd (snd y) = snd s @ concat segs @ rest \<and>
           list_all (while_round (Call f as) B) segs \<and> while_exit (Call f as) B (fst y) rest"
      proof (cases rc)
        case (Inl e)
        with step cs have "y = (Inl e, (wc, lg @ [?x]))" by auto
        then have "snd (snd y) = snd s @ concat [] @ [?x]" "while_exit (Call f as) B (fst y) [?x]"
          using Inl by (simp_all add: s while_exit_def)
        then show ?thesis using nil by blast
      next
        case (Inr b)
        show ?thesis
        proof (cases "truthy b")
          case False
          with step cs Inr have "y = (Inr (), (wc, lg @ [?x]))" by auto
          then have "snd (snd y) = snd s @ concat [] @ [?x]" "while_exit (Call f as) B (fst y) [?x]"
            using Inr False by (simp_all add: s while_exit_def)
          then show ?thesis using nil by blast
        next
          case True
          show ?thesis
          proof (cases "bd (wc, lg @ [?x])")
            case None
            with step cs Inr True show ?thesis by simp
          next
            case (Some z)
            obtain rb sb where z: "z = (rb, sb)" by (cases z)
            from body[of "(wc, lg @ [?x])" rb sb] Some z bd obtain new where
              nw: "snd sb = (lg @ [?x]) @ new" "B rb new" by auto
            show ?thesis
            proof (cases rb)
              case (Inl e)
              with step cs Inr True Some z have "y = (Inl e, sb)" by auto
              then have "snd (snd y) = snd s @ concat [] @ (?x # new)"
                  "while_exit (Call f as) B (fst y) (?x # new)"
                using Inr True nw Inl by (simp_all add: s while_exit_def)
              then show ?thesis using nil by blast
            next
              case (Inr u)
              with step cs \<open>rc = Inr b\<close> True Some z have "pw c bd sb = Some y" by auto
              from IH[OF this] c bd obtain segs rest where
                ih: "snd (snd y) = snd sb @ concat segs @ rest"
                    "list_all (while_round (Call f as) B) segs"
                    "while_exit (Call f as) B (fst y) rest"
                unfolding P_def by blast
              have "while_round (Call f as) B (?x # new)"
                using \<open>rc = Inr b\<close> True nw(2) Inr by (simp add: while_round_def)
              with ih(2) have "list_all (while_round (Call f as) B) ((?x # new) # segs)" by simp
              moreover have "snd (snd y) = snd s @ concat ((?x # new) # segs) @ rest"
                using ih(1) nw(1) by (simp add: s)
              ultimately show ?thesis using ih(3) by blast
            qed
          qed
        qed
      qed
    qed
  qed
  then show ?thesis by (simp add: P_def)
qed

lemma final_build_log:
  assumes "final_build env E message (w, lg) = Some (r, (w', lg'))"
  shows "\<exists>new. lg' = lg @ new \<and> final_ok env E message w r new"
proof -
  let ?cs = "[ (remake, [Pos (training E)]),
               (llhoptimize_full, [Pos (opt_T E), Pos (config E), Pos (BoolV message)]),
               (remake, [Pos (training E)]),
               (final_beliefs, [Pos (beliefs E), Pos (self E), Pos (BoolV True)]),
               (final_design_points, [Pos (post E), Pos (self E), Pos (BoolV True)]) ]"
  let ?y = "(Print (CHR 0x0A # ''***Doing final build***''), Inr NoneV, w)"
  let ?inc = "(incVinT, [Pos (post E)])"
  show ?thesis
  proof (cases "getattr env w (tv_conf E) ''noV''")
    case (Inl e)
    with assms have "r = Inl e" "lg' = lg @ [?y]"
      by (auto simp: final_build_def andthen_apply py_print_apply py_if_def attr_def)
    then show ?thesis using Inl by (simp add: final_ok_def)
  next
    case (Inr n)
    show ?thesis
    proof (cases "ne_zero n")
      case True
      with assms Inr
      have "block (map (\<lambda>(f, as). stmt env f as) (?inc # ?cs)) (w, lg @ [?y]) = Some (r, (w', lg'))"
        by (simp add: final_build_def andthen_apply py_print_apply py_if_def attr_def ret_def
                 split: option.splits prod.splits sum.splits)
      from calls_log[OF this] obtain new where
        n: "lg' = (lg @ [?y]) @ new" "outcome_ok r new (map (\<lambda>(f, as). Call f as) (?inc # ?cs))"
        by blast
      have "outcome_ok r (?y # new) (final_events E message True)"
        using n(2) by (auto simp: outcome_ok_def final_events_def split: sum.splits)
      with n(1) Inr True show ?thesis by (auto simp: final_ok_def)
    next
      case False
      with assms Inr
      have "block (map (\<lambda>(f, as). stmt env f as) ?cs) (w, lg @ [?y]) = Some (r, (w', lg'))"
        by (simp add: final_build_def andthen_apply py_print_apply py_if_def attr_def ret_def
                 split: option.splits prod.splits sum.splits)
      from calls_log[OF this] obtain new where
        n: "lg' = (lg @ [?y]) @ new" "outcome_ok r new (map (\<lambda>(f, as). Call f as) ?cs)"
        by blast
      have "outcome_ok r (?y # new) (final_events E message False)"
        using n(2) by (auto simp: outcome_ok_def final_events_def split: sum.splits)
      with n(1) Inr False show ?thesis by (auto simp: final_ok_def)
    qed
  qed
qed

lemma final_stage_log:
  assumes "final_stage env E message (w, lg) = Some (r, (w', lg'))"
  shows "\<exists>new. lg' = lg @ new \<and> stage_ok env E message r new"
proof -
  obtain rd wd where pd: "perform env do_final_build [Pos (tv_conf E)] w = (rd, wd)"
    by (cases "perform env do_final_build [Pos (tv_conf E)] w")
  let ?d = "(Call do_final_build [Pos (tv_conf E)], rd, wd)"
  show ?thesis
  proof (cases rd)
    case (Inl e)
    with assms pd have "r = Inl e" "lg' = lg @ [?d]"
      by (auto simp: final_stage_def py_if_invoke_apply)
    then show ?thesis using Inl by (simp add: stage_ok_def)
  next
    case (Inr b)
    show ?thesis
    proof (cases "truthy b")
      case False
      with assms pd Inr have "r = Inr ()" "lg' = lg @ [?d]"
        by (auto simp: final_stage_def py_if_invoke_apply)
      then show ?thesis using Inr False by (simp add: stage_ok_def)
    next
      case True
      with assms pd Inr have "final_build env E message (wd, lg @ [?d]) = Some (r, (w', lg'))"
        by (simp add: final_stage_def py_if_invoke_apply)
      from final_build_log[OF this] obtain new where
        n: "lg' = (lg @ [?d]) @ new" "final_ok env E message wd r new" by blast
      then have "stage_ok env E message r (?d # new)"
        using Inr True by (simp add: stage_ok_def)
      with n(1) show ?thesis by auto
    qed
  qed
qed

lemma while_round_validation:
  assumes "while_round (Call doing_training [Pos (tv_conf E)]) (round_ok E message) seg"
  shows "validation_round E message seg"
proof -
  from assms obtain rc wd new b where
    seg: "seg = (Call doing_training [Pos (tv_conf E)], rc, wd) # new"
    and rc: "rc = Inr b" "truthy b" and ok: "round_ok E message (Inr ()) new"
    by (auto simp: while_round_def split: list.splits sum.splits)
  from ok obtain v where
    v: "8 < length new" "fst (snd (new ! 8)) = Inr v"
       "map fst new = round_events E message (truthy v)"
    by (auto simp: round_ok_def split: sum.splits)
  show ?thesis
    using seg rc v by (simp add: validation_round_def answer_def returned_def)
qed

lemma while_exit_last:
  assumes "while_exit (Call doing_training [Pos (tv_conf E)]) (round_ok E message) r rest"
  shows "last_round E message r rest"
proof -
  from assms obtain rc wd new where
    rest: "rest = (Call doing_training [Pos (tv_conf E)], rc, wd) # new"
    by (auto simp: while_exit_def split: list.splits)
  show ?thesis
  proof (cases rc)
    case (Inl e)
    with assms rest show ?thesis
      by (simp add: while_exit_def last_round_def)
  next
    case (Inr b)
    show ?thesis
    proof (cases "truthy b")
      case False
      with assms rest Inr show ?thesis
        by (simp add: while_exit_def last_round_def answer_def returned_def)
    next
      case True
      with assms rest Inr obtain e where
        e: "r = Inl e" "outcome_ok (Inl e :: error + unit) new (round_events E message True)"
        by (auto simp: while_exit_def round_ok_def split: sum.splits)
      then show ?thesis
        using rest Inr True by (simp add: last_round_def outcome_ok_def answer_def)
    qed
  qed
qed

lemma training_loop_log:
  assumes "training_loop env E message (w, lg) = Some (r, (w', lg'))"
  shows "\<exists>segs rest. lg' = lg @ concat segs @ rest \<and>
           list_all (validation_round E message) segs \<and> last_round E message r rest"
proof -
  have body: "\<And>st r st'. train_round env E message st = Some (r, st') \<Longrightarrow>
      \<exists>new. snd st' = snd st @ new \<and> round_ok E message r new"
  proof -
    fix st :: "'a state" and r st'
    assume a: "train_round env E message st = Some (r, st')"
    obtain w lg where st: "st = (w, lg)" by (cases st)
    obtain w' lg' where st': "st' = (w', lg')" by (cases st')
    from round_log[of env E message w lg r w' lg'] a st st'
    show "\<exists>new. snd st' = snd st @ new \<and> round_ok E message r new" by simp
  qed
  from assms have "py_while (invoke env doing_training [Pos (tv_conf E)])
      (train_round env E message) (w, lg) = Some (r, (w', lg'))"
    by (simp add: training_loop_def)
  from while_log[where B = "round_ok E message" and body = "train_round env E message", OF body this] obtain segs rest where
    d: "lg' = lg @ concat segs @ rest"
       "list_all (while_round (Call doing_training [Pos (tv_conf E)]) (round_ok E message)) segs"
       "while_exit (Call doing_training [Pos (tv_conf E)]) (round_ok E message) r rest"
    by auto
  from d(2) have "list_all (validation_round E message) segs"
    by (auto simp: list_all_iff intro: while_round_validation)
  with d(1) while_exit_last[OF d(3)] show ?thesis by blast
qed


section \<open>The validation rounds\<close>

text \<open>
  Claim C1. Every run of the while loop of \<^verbatim>\<open>train\<close> (lines 75 to 100) is a sequence of
  complete rounds followed by the exit of the loop. A complete round is a call of
  \<^verbatim>\<open>doing_training\<close> that returned a true value, followed in this exact order by
  \<^verbatim>\<open>llhoptimize_full\<close>, the remakes of training, validation and posterior, the Mahalanobis
  distance, the individual standard errors, \<^verbatim>\<open>final_beliefs(E, False)\<close>,
  \<^verbatim>\<open>final_design_points(E, False)\<close> and \<^verbatim>\<open>check_still_training\<close>; and, exactly when
  \<^verbatim>\<open>check_still_training\<close> returned a true value, by the printed line, \<^verbatim>\<open>incVinT\<close>,
  \<^verbatim>\<open>next_Vset\<close>, \<^verbatim>\<open>choose_new_V\<close> and the three remakes again. The loop ends with a call
  of \<^verbatim>\<open>doing_training\<close> that returned a false value, or with a round cut short by the
  exception a collaborator raised: then the log ends with a prefix of a round. So the
  diagnostics of a round are computed right after the three remakes that follow the
  optimisation of that round.
\<close>

theorem train_round_order:
  assumes "training_loop env E message (w, lg) = Some (r, (w', lg'))"
  shows "\<exists>segs rest. lg' = lg @ concat segs @ rest \<and>
           list_all (validation_round E message) segs \<and> last_round E message r rest"
  using assms by (rule training_loop_log)

section \<open>The functions run on the partition plan\<close>

lemma ex0: "\<exists>r w' lg'. training_loop partition_env emu0 False (plan0, []) = Some (r, (w', lg'))"
  by (simp add: training_loop_def py_while.simps invoke_apply train_round_def next_round_def
        andthen_apply stmt_apply py_if_invoke_apply py_print_apply ret_def
        partition_env_def partition_perform_def plan0_def emu0_def V_block_def)


theorem train_round_order_witness:
  "\<exists>r w' lg'. training_loop partition_env emu0 False (plan0, []) = Some (r, (w', lg')) \<and>
     (\<exists>segs rest. lg' = [] @ concat segs @ rest \<and>
        list_all (validation_round emu0 False) segs \<and> last_round emu0 False r rest)"
proof -
  obtain r w' lg' where
    run: "training_loop partition_env emu0 False (plan0, []) = Some (r, (w', lg'))"
    using ex0 by blast
  from train_round_order[OF run] run show ?thesis by blast
qed

section \<open>The final build\<close>

text \<open>
  Claim C2. The if after the loop of \<^verbatim>\<open>train\<close> (lines 103 to 117) calls
  \<^verbatim>\<open>do_final_build\<close>. When it returned a true value, the line is printed, \<^verbatim>\<open>noV\<close> is read
  in the state that call left, and the calls that follow are \<^verbatim>\<open>incVinT\<close> exactly when
  \<^verbatim>\<open>noV != 0\<close>, then the remake of training, \<^verbatim>\<open>llhoptimize_full\<close>, the remake of
  training again, \<^verbatim>\<open>final_beliefs(E, True)\<close> and \<^verbatim>\<open>final_design_points(E, True)\<close>: all
  of them when the branch returns, a prefix of them ending with the call that raised
  otherwise. With \<^verbatim>\<open>noV == 0\<close> there is no fold, and the optimisation and the two
  persistence calls are still made. When \<^verbatim>\<open>do_final_build\<close> returned a false value or
  raised, nothing else is called.
\<close>

theorem final_build_folds_iff_noV:
  assumes "final_stage env E message (w, lg) = Some (r, (w', lg'))"
  shows "\<exists>d fin. lg' = lg @ d # fin \<and> fst d = Call do_final_build [Pos (tv_conf E)] \<and>
           (if answer d then
              (case getattr env (snd (snd d)) (tv_conf E) ''noV'' of
                 Inr n \<Rightarrow> outcome_ok r fin (final_events E message (ne_zero n))
               | Inl e \<Rightarrow>
                   r = Inl e \<and> map fst fin = [Print (CHR 0x0A # ''***Doing final build***'')])
            else fin = [] \<and> r = map_sum id (\<lambda>v. ()) (fst (snd d)))"
proof -
  from final_stage_log[OF assms] obtain new where
    n: "lg' = lg @ new" "stage_ok env E message r new" by blast
  from n(2) obtain rd wd fin where
    new: "new = (Call do_final_build [Pos (tv_conf E)], rd, wd) # fin"
    by (auto simp: stage_ok_def split: list.splits)
  show ?thesis
  proof (cases rd)
    case (Inl e)
    with n new show ?thesis by (auto simp: stage_ok_def answer_def)
  next
    case (Inr b)
    with n new show ?thesis
      by (cases "truthy b") (auto simp: stage_ok_def answer_def final_ok_def)
  qed
qed

lemma ex_final: "\<exists>r w' lg'. final_stage partition_env emu0 False (plan0, []) = Some (r, (w', lg'))"
  by (simp add: final_stage_def final_build_def py_if_def attr_def invoke_apply 
        andthen_apply stmt_apply py_if_invoke_apply py_print_apply ret_def
        partition_env_def partition_perform_def partition_getattr_def plan0_def emu0_def V_block_def)

theorem final_build_folds_iff_noV_witness:
  "\<exists>r w' lg'. final_stage partition_env emu0 False (plan0, []) = Some (r, (w', lg')) \<and>
     (\<exists>d fin. lg' = [] @ d # fin \<and> fst d = Call do_final_build [Pos (tv_conf emu0)] \<and>
           (if answer d then
              (case getattr partition_env (snd (snd d)) (tv_conf emu0) ''noV'' of
                 Inr n \<Rightarrow> outcome_ok r fin (final_events emu0 False (ne_zero n))
               | Inl e \<Rightarrow>
                   r = Inl e \<and> map fst fin = [Print (CHR 0x0A # ''***Doing final build***'')])
            else fin = [] \<and> r = map_sum id (\<lambda>v. ()) (fst (snd d))))"
proof -
  obtain r w' lg' where
    run: "final_stage partition_env emu0 False (plan0, []) = Some (r, (w', lg'))"
    using ex_final by blast
  from final_build_folds_iff_noV[OF run] run show ?thesis by blast
qed

lemma final_events_alphabet:
  "set (final_events E message folded) \<subseteq> set (final_events E message True)"
  by (auto simp: final_events_def)

section \<open>Runs under other diagnostic values\<close>

lemma followsI:
  "(\<And>s t r s'. alike s t \<Longrightarrow> p s = Some (r, s') \<Longrightarrow> \<exists>t'. q t = Some (r, t') \<and> alike s' t')
     \<Longrightarrow> follows p q"
  unfolding follows_def by blast

lemma followsD:
  "follows p q \<Longrightarrow> alike s t \<Longrightarrow> p s = Some (r, s') \<Longrightarrow> \<exists>t'. q t = Some (r, t') \<and> alike s' t'"
  unfolding follows_def by blast

lemma follows_ret: "follows (ret a) (ret a)"
  by (rule followsI) (simp add: ret_def)

lemma follows_andthen:
  assumes m: "follows m1 m2" and f: "\<And>a. follows (f1 a) (f2 a)"
  shows "follows (andthen m1 f1) (andthen m2 f2)"
proof (rule followsI)
  fix s t :: "'a state" and r s'
  assume al: "alike s t" and run: "andthen m1 f1 s = Some (r, s')"
  from run obtain r1 s1 where m1: "m1 s = Some (r1, s1)"
    by (auto simp: andthen_apply split: option.splits)
  from followsD[OF m al m1] obtain t1 where m2: "m2 t = Some (r1, t1)" "alike s1 t1" by blast
  show "\<exists>t'. andthen m2 f2 t = Some (r, t') \<and> alike s' t'"
  proof (cases r1)
    case (Inl e)
    with run m1 m2 show ?thesis by (auto simp: andthen_apply)
  next
    case (Inr a)
    with run m1 have "f1 a s1 = Some (r, s')" by (simp add: andthen_apply)
    from followsD[OF f m2(2) this] obtain t' where "f2 a t1 = Some (r, t')" "alike s' t'" by blast
    with m2 Inr show ?thesis by (auto simp: andthen_apply)
  qed
qed

lemma follows_block:
  "list_all2 follows ps qs \<Longrightarrow> follows (block ps) (block qs)"
proof (induction rule: list_all2_induct)
  case Nil
  show ?case by (simp add: follows_ret)
next
  case (Cons p ps q qs)
  then show ?case by (simp add: follows_andthen)
qed

lemma follows_if:
  assumes "follows c1 c2" "follows b1 b2"
  shows "follows (py_if c1 b1) (py_if c2 b2)"
  unfolding py_if_def
  by (rule follows_andthen[OF assms(1)]) (simp add: assms(2) follows_ret)

lemma follows_while:
  assumes c: "follows c1 c2" and b: "follows b1 b2"
  shows "follows (py_while c1 b1) (py_while c2 b2)"
proof (rule followsI)
  fix s t :: "'a state" and r s'
  assume al: "alike s t" and run: "py_while c1 b1 s = Some (r, s')"
  define P where "P c bd s y \<longleftrightarrow>
      (c = c1 \<longrightarrow> bd = b1 \<longrightarrow>
        (\<forall>t. alike s t \<longrightarrow> (\<exists>t'. py_while c2 b2 t = Some (fst y, t') \<and> alike (snd y) t')))"
    for c :: "('a, val) prog" and bd :: "('a, unit) prog" and s :: "'a state"
      and y :: "(error + unit) \<times> 'a state"
  have "P c1 b1 s (r, s')"
  proof (rule py_while.raw_induct[where P = P, OF _ run])
    fix pw :: "('a, val) prog \<Rightarrow> ('a, unit) prog \<Rightarrow> 'a state \<Rightarrow> ((error + unit) \<times> 'a state) option"
    fix c bd s y
    assume IH: "\<And>c bd s y. pw c bd s = Some y \<Longrightarrow> P c bd s y"
    assume step: "(case c s of None \<Rightarrow> None | Some (Inl e, st1) \<Rightarrow> Some (Inl e, st1)
        | Some (Inr b, st1) \<Rightarrow>
            if truthy b
            then case bd st1 of None \<Rightarrow> None
                 | Some (Inl e, st2) \<Rightarrow> Some (Inl e, st2)
                 | Some (Inr u, st2) \<Rightarrow> pw c bd st2
            else Some (Inr (), st1)) = Some y"
    show "P c bd s y"
      unfolding P_def
    proof (intro impI allI)
      fix t
      assume ceq: "c = c1" and beq: "bd = b1" and al: "alike s t"
      from step obtain rc s1 where cs: "c s = Some (rc, s1)"
        by (auto split: option.splits)
      from followsD[OF c al] cs ceq obtain t1 where ct: "c2 t = Some (rc, t1)" "alike s1 t1"
        by blast
      show "\<exists>t'. py_while c2 b2 t = Some (fst y, t') \<and> alike (snd y) t'"
      proof (cases rc)
        case (Inl e)
        with step cs have "y = (Inl e, s1)" by auto
        with ct Inl show ?thesis by (subst py_while.simps) simp
      next
        case (Inr v)
        show ?thesis
        proof (cases "truthy v")
          case False
          with step cs Inr have "y = (Inr (), s1)" by auto
          with ct Inr False show ?thesis by (subst py_while.simps) simp
        next
          case True
          with step cs Inr obtain rb s2 where bs: "bd s1 = Some (rb, s2)"
            by (auto split: option.splits)
          from followsD[OF b ct(2)] bs beq obtain t2 where bt: "b2 t1 = Some (rb, t2)" "alike s2 t2"
            by blast
          show ?thesis
          proof (cases rb)
            case (Inl e)
            with step cs \<open>rc = Inr v\<close> True bs have "y = (Inl e, s2)" by auto
            with ct \<open>rc = Inr v\<close> True bt Inl show ?thesis by (subst py_while.simps) simp
          next
            case (Inr u)
            with step cs \<open>rc = Inr v\<close> True bs have "pw c bd s2 = Some y" by auto
            from IH[OF this] ceq beq bt(2) obtain t' where
              "py_while c2 b2 t2 = Some (fst y, t')" "alike (snd y) t'"
              unfolding P_def by blast
            with ct \<open>rc = Inr v\<close> True bt Inr show ?thesis by (subst py_while.simps) simp
          qed
        qed
      qed
    qed
  qed
  with al show "\<exists>t'. py_while c2 b2 t = Some (r, t') \<and> alike s' t'"
    unfolding P_def by (cases t) auto
qed


lemma alike_refl: "alike s s"
  by (simp add: alike_def)

lemma alike_sym: "alike s t \<Longrightarrow> alike t s"
  by (simp add: alike_def)

lemma alike_snoc:
  "alike (w, lg) (w', lg') \<Longrightarrow> hide_diagnostic x = hide_diagnostic y \<Longrightarrow> snd (snd x) = snd (snd y)
     \<Longrightarrow> alike (snd (snd x), lg @ [x]) (snd (snd y), lg' @ [y])"
  by (simp add: alike_def)

lemma perform_with_diagnostics:
  "perform (with_diagnostics d env) f as w =
     (if diagnostic f then
        (case perform env f as w of
           (Inr v, w') \<Rightarrow> (Inr (d f as w), w')
         | (Inl e, w') \<Rightarrow> (Inl e, w'))
      else perform env f as w)"
  by (simp add: with_diagnostics_def)

lemma getattr_with_diagnostics: "getattr (with_diagnostics d env) = getattr env"
  by (simp add: with_diagnostics_def)

lemma follows_print: "follows (py_print s) (py_print s)"
  by (rule followsI) (auto simp: py_print_def alike_def)

lemma follows_attr:
  "follows (attr env v name) (attr (with_diagnostics d env) v name)"
  "follows (attr (with_diagnostics d env) v name) (attr env v name)"
  by (rule followsI; auto simp: attr_def alike_def getattr_with_diagnostics)+

lemma follows_invoke:
  assumes "\<not> diagnostic f"
  shows "follows (invoke env f as) (invoke (with_diagnostics d env) f as)"
    and "follows (invoke (with_diagnostics d env) f as) (invoke env f as)"
  using assms
  by (rule_tac followsI; auto simp: invoke_def alike_def perform_with_diagnostics split: prod.splits)+

lemma follows_stmt:
  shows "follows (stmt env f as) (stmt (with_diagnostics d env) f as)"
    and "follows (stmt (with_diagnostics d env) f as) (stmt env f as)"
  by (rule followsI;
      auto simp: stmt_apply alike_def perform_with_diagnostics hide_diagnostic_def
           split: prod.splits sum.splits if_splits)+

lemma round_events_alphabet:
  "set (round_events E message again) \<subseteq> set (round_events E message True)"
  by (auto simp: round_events_def)

lemma validation_round_alphabet:
  assumes "validation_round E message seg"
  shows "set (map fst seg) \<subseteq> set (train_events E auto message)"
proof -
  from assms have "set (map fst seg) \<subseteq>
      insert (Call doing_training [Pos (tv_conf E)]) (set (round_events E message (answer (seg ! 9))))"
    by (simp add: validation_round_def)
  with round_events_alphabet[of E message "answer (seg ! 9)"] show ?thesis
    by (auto simp: train_events_def)
qed

lemma last_round_alphabet:
  assumes "last_round E message r rest"
  shows "set (map fst rest) \<subseteq> set (train_events E auto message)"
proof (cases r)
  case (Inl e)
  with assms have "prefix (map fst rest)
      (Call doing_training [Pos (tv_conf E)] # round_events E message True)"
    by (simp add: last_round_def)
  from set_mono_prefix[OF this] show ?thesis by (auto simp: train_events_def)
next
  case (Inr u)
  with assms show ?thesis by (simp add: last_round_def train_events_def)
qed

lemma stage_alphabet:
  assumes "stage_ok env E message r new"
  shows "set (map fst new) \<subseteq> set (train_events E auto message)"
proof -
  from assms obtain rd wd fin where
    new: "new = (Call do_final_build [Pos (tv_conf E)], rd, wd) # fin"
    by (auto simp: stage_ok_def split: list.splits)
  have "set (map fst fin) \<subseteq> set (final_events E message True)"
  proof (cases rd)
    case (Inl e)
    with assms new show ?thesis by (simp add: stage_ok_def)
  next
    case (Inr b)
    show ?thesis
    proof (cases "truthy b")
      case False
      with assms new Inr show ?thesis by (simp add: stage_ok_def)
    next
      case True
      with assms new Inr have ok: "final_ok env E message wd r fin" by (simp add: stage_ok_def)
      show ?thesis
      proof (cases "getattr env wd (tv_conf E) ''noV''")
        case (Inl e)
        with ok show ?thesis by (simp add: final_ok_def final_events_def)
      next
        case (Inr n)
        with ok have "outcome_ok r fin (final_events E message (ne_zero n))"
          by (simp add: final_ok_def)
        then have "prefix (map fst fin) (final_events E message (ne_zero n))"
          by (auto simp: outcome_ok_def split: sum.splits)
        from set_mono_prefix[OF this] final_events_alphabet[of E message "ne_zero n"]
        show ?thesis by blast
      qed
    qed
  qed
  with new show ?thesis by (auto simp: train_events_def)
qed

lemma train_alphabet:
  assumes "train env E auto message (w, lg) = Some (r, (w', lg'))"
  shows "\<exists>new. lg' = lg @ new \<and> set (map fst new) \<subseteq> set (train_events E auto message)"
proof -
  obtain ra wa where pa: "perform env auto_train [Pos (tv_conf E), Pos (BoolV auto)] w = (ra, wa)"
    by (cases "perform env auto_train [Pos (tv_conf E), Pos (BoolV auto)] w")
  let ?a = "(Call auto_train [Pos (tv_conf E), Pos (BoolV auto)], ra, wa)"
  have a_in: "fst ?a \<in> set (train_events E auto message)" by (simp add: train_events_def)
  show ?thesis
  proof (cases ra)
    case (Inl e)
    with assms pa have "lg' = lg @ [?a]"
      by (auto simp: train_def andthen_apply stmt_apply)
    with a_in show ?thesis by auto
  next
    case (Inr va)
    with assms pa obtain rl wl lgl where
      loop: "training_loop env E message (wa, lg @ [?a]) = Some (rl, (wl, lgl))"
      by (auto simp: train_def andthen_apply stmt_apply split: option.splits)
    from training_loop_log[OF loop] obtain segs rest where
      l: "lgl = (lg @ [?a]) @ concat segs @ rest"
         "list_all (validation_round E message) segs" "last_round E message rl rest"
      by blast
    have segs: "set (map fst (concat segs)) \<subseteq> set (train_events E auto message)"
      using l(2) validation_round_alphabet[of E message _ auto]
      by (auto simp: list_all_iff)
    note rest = last_round_alphabet[OF l(3), of auto]
    show ?thesis
    proof (cases rl)
      case (Inl e)
      with assms pa Inr loop have "lg' = lgl"
        by (auto simp: train_def andthen_apply stmt_apply)
      with l(1) a_in segs rest show ?thesis by auto
    next
      case (Inr ul)
      with assms pa \<open>ra = Inr va\<close> loop obtain rf where
        fin: "final_stage env E message (wl, lgl) = Some (rf, (w', lg'))"
        by (auto simp: train_def andthen_apply stmt_apply ret_def
                 split: option.splits sum.splits)
      from final_stage_log[OF fin] obtain new where
        f: "lg' = lgl @ new" "stage_ok env E message rf new" by blast
      note stage = stage_alphabet[OF f(2), of auto]
      from l(1) f(1) a_in segs rest stage show ?thesis by auto
    qed
  qed
qed

lemma train_follows:
  shows "follows (train env E auto message) (train (with_diagnostics d env) E auto message)"
    and "follows (train (with_diagnostics d env) E auto message) (train env E auto message)"
  unfolding train_def training_loop_def final_stage_def train_round_def next_round_def
    final_build_def
  by (intro follows_andthen follows_block follows_while follows_if follows_stmt follows_print
        follows_attr follows_ret follows_invoke list.rel_intros; simp add: diagnostic_def)+

lemma observed_eq:
  assumes pq: "follows p q" and qp: "follows q p"
  shows "observed (p (w, [])) = observed (q (w, []))"
proof (cases "p (w, [])")
  case None
  have "q (w, []) = None"
  proof (rule ccontr)
    assume "q (w, []) \<noteq> None"
    then obtain r t' where "q (w, []) = Some (r, t')" by auto
    from followsD[OF qp alike_refl this] None show False by auto
  qed
  with None show ?thesis by (simp add: observed_def)
next
  case (Some y)
  obtain r s' where y: "y = (r, s')" by (cases y)
  from followsD[OF pq alike_refl, of "(w, [])" r s'] Some y obtain t' where
    "q (w, []) = Some (r, t')" "alike s' t'" by auto
  with Some y show ?thesis
    by (cases s'; cases t') (simp add: observed_def alike_def)
qed

section \<open>The log of train\<close>

lemma train_log:
  assumes "train env E auto message (w, lg) = Some (r, (w', lg'))"
  shows "\<exists>a segs rest fin rl rf. lg' = lg @ a # concat segs @ rest @ fin \<and>
           fst a = Call auto_train [Pos (tv_conf E), Pos (BoolV auto)] \<and>
           list_all (validation_round E message) segs \<and>
           (case fst (snd a) of
              Inl e \<Rightarrow> r = Inl e \<and> segs = [] \<and> rest = [] \<and> fin = []
            | Inr v \<Rightarrow>
                last_round E message rl rest \<and>
                (case rl of
                   Inl e \<Rightarrow> r = Inl e \<and> fin = []
                 | Inr u \<Rightarrow> stage_ok env E message rf fin \<and> r = map_sum id (\<lambda>u. NoneV) rf))"
proof -
  obtain ra wa where pa: "perform env auto_train [Pos (tv_conf E), Pos (BoolV auto)] w = (ra, wa)"
    by (cases "perform env auto_train [Pos (tv_conf E), Pos (BoolV auto)] w")
  let ?a = "(Call auto_train [Pos (tv_conf E), Pos (BoolV auto)], ra, wa)"
  show ?thesis
  proof (cases ra)
    case (Inl e)
    with assms pa have "lg' = lg @ ?a # concat [] @ [] @ []" "r = Inl e"
      by (auto simp: train_def andthen_apply stmt_apply)
    with Inl show ?thesis by (rule_tac x = ?a in exI, rule_tac x = "[]" in exI, rule_tac x = "[]" in exI,
          rule_tac x = "[]" in exI) simp
  next
    case (Inr va)
    with assms pa obtain rl wl lgl where
      loop: "training_loop env E message (wa, lg @ [?a]) = Some (rl, (wl, lgl))"
      by (auto simp: train_def andthen_apply stmt_apply split: option.splits)
    from training_loop_log[OF loop] obtain segs rest where
      l: "lgl = (lg @ [?a]) @ concat segs @ rest"
         "list_all (validation_round E message) segs" "last_round E message rl rest"
      by blast
    show ?thesis
    proof (cases rl)
      case (Inl e)
      with assms pa Inr loop have "lg' = lgl" "r = Inl e"
        by (auto simp: train_def andthen_apply stmt_apply)
      with l Inl \<open>ra = Inr va\<close> show ?thesis
        by (rule_tac x = ?a in exI, rule_tac x = segs in exI, rule_tac x = rest in exI,
            rule_tac x = "[]" in exI, rule_tac x = rl in exI) auto
    next
      case (Inr ul)
      with assms pa \<open>ra = Inr va\<close> loop obtain rf where
        fin: "final_stage env E message (wl, lgl) = Some (rf, (w', lg'))"
        and r: "r = map_sum id (\<lambda>u. NoneV) rf"
        by (auto simp: train_def andthen_apply stmt_apply ret_def
                 split: option.splits sum.splits)
      from final_stage_log[OF fin] obtain new where
        f: "lg' = lgl @ new" "stage_ok env E message rf new" by blast
      from l f r Inr \<open>ra = Inr va\<close> show ?thesis
        by (rule_tac x = ?a in exI, rule_tac x = segs in exI, rule_tac x = rest in exI,
            rule_tac x = new in exI, rule_tac x = rl in exI, rule_tac x = rf in exI) auto
    qed
  qed
qed

lemma guard_notin_round:
  "Call doing_training as \<notin> set (round_events E message again)"
  by (auto simp: round_events_def validation_events_def next_events_def)

lemma guard_notin_final:
  "Call doing_training as \<notin> set (final_events E message folded)"
  by (auto simp: final_events_def)

lemma guard_is_head:
  assumes "map fst (pre @ x # us) = Call doing_training as # evs"
    and "fst x = Call doing_training as" and "Call doing_training as \<notin> set evs"
  shows "pre = []"
proof (cases pre)
  case Nil
  then show ?thesis by simp
next
  case (Cons p ps)
  with assms(1) have "evs = map fst ps @ fst x # map fst us" by simp
  with assms(2,3) show ?thesis by simp
qed

lemma round_reaches_ise:
  assumes "validation_round E message (x # us)"
  shows "6 \<le> length us \<and>
         fst (us ! 5) = Call indiv_standard_error [Pos (post E), Key ''ise'' (FloatV 2.0)]"
proof -
  from assms have len: "9 \<le> length us"
    and ev: "map fst us = round_events E message (answer ((x # us) ! 9))"
    by (simp_all add: validation_round_def)
  from len have "fst (us ! 5) = map fst us ! 5" by simp
  also have "\<dots> = Call indiv_standard_error [Pos (post E), Key ''ise'' (FloatV 2.0)]"
    unfolding ev by (simp add: round_events_def validation_events_def)
  finally show ?thesis using len by simp
qed

lemma reaches_ise_append:
  assumes "6 \<le> length us"
    and "fst (us ! 5) = Call indiv_standard_error [Pos (post E), Key ''ise'' (FloatV 2.0)]"
  shows "reaches_ise E r (us @ more_entries)"
  using assms by (simp add: reaches_ise_def nth_append)

lemma rounds_reach_ise:
  assumes "list_all (validation_round E message) segs"
    and tail: "\<And>pre x suf. tl_part = pre @ x # suf \<Longrightarrow> fst x = Call doing_training [Pos (tv_conf E)]
                 \<Longrightarrow> answer x \<Longrightarrow> reaches_ise E r suf"
    and "concat segs @ tl_part = pre @ x # suf"
    and "fst x = Call doing_training [Pos (tv_conf E)]" and "answer x"
  shows "reaches_ise E r suf"
  using assms(1,3)
proof (induction segs arbitrary: pre)
  case Nil
  with tail assms(4,5) show ?case by simp
next
  case (Cons seg segs)
  from Cons.prems(1) have seg: "validation_round E message seg"
    and segs: "list_all (validation_round E message) segs" by simp_all
  from Cons.prems(2) have "seg @ (concat segs @ tl_part) = pre @ (x # suf)" by simp
  then obtain us where
    "(seg = pre @ us \<and> us @ (concat segs @ tl_part) = x # suf) \<or>
     (seg @ us = pre \<and> concat segs @ tl_part = us @ (x # suf))"
    unfolding append_eq_append_conv2 by blast
  then show ?case
  proof
    assume a: "seg = pre @ us \<and> us @ (concat segs @ tl_part) = x # suf"
    show ?thesis
    proof (cases us)
      case Nil
      with a have "concat segs @ tl_part = [] @ x # suf" by simp
      from Cons.IH[OF segs this] show ?thesis .
    next
      case (Cons u us')
      with a have ux: "u = x" and suf: "suf = us' @ concat segs @ tl_part"
        and s: "seg = pre @ x # us'" by simp_all
      from seg have "map fst seg =
          Call doing_training [Pos (tv_conf E)] # round_events E message (answer (seg ! 9))"
        by (simp add: validation_round_def)
      with s have "map fst (pre @ x # us') =
          Call doing_training [Pos (tv_conf E)] # round_events E message (answer (seg ! 9))"
        by simp
      from guard_is_head[OF this assms(4) guard_notin_round] have "pre = []" .
      with s seg have "validation_round E message (x # us')" by simp
      from round_reaches_ise[OF this] suf show ?thesis
        by (simp add: reaches_ise_append)
    qed
  next
    assume "seg @ us = pre \<and> concat segs @ tl_part = us @ (x # suf)"
    then have "concat segs @ tl_part = us @ x # suf" by simp
    from Cons.IH[OF segs this] show ?thesis .
  qed
qed

lemma stage_events:
  assumes "stage_ok env E message r new"
  shows "\<exists>d fin. new = d # fin \<and> fst d = Call do_final_build [Pos (tv_conf E)] \<and>
           set (map fst fin) \<subseteq> set (final_events E message True)"
proof -
  from assms obtain rd wd fin where
    new: "new = (Call do_final_build [Pos (tv_conf E)], rd, wd) # fin"
    by (auto simp: stage_ok_def split: list.splits)
  have "set (map fst fin) \<subseteq> set (final_events E message True)"
  proof (cases rd)
    case (Inl e)
    with assms new show ?thesis by (simp add: stage_ok_def)
  next
    case (Inr b)
    show ?thesis
    proof (cases "truthy b")
      case False
      with assms new Inr show ?thesis by (simp add: stage_ok_def)
    next
      case True
      with assms new Inr have ok: "final_ok env E message wd r fin" by (simp add: stage_ok_def)
      show ?thesis
      proof (cases "getattr env wd (tv_conf E) ''noV''")
        case (Inl e)
        with ok show ?thesis by (simp add: final_ok_def final_events_def)
      next
        case (Inr n)
        with ok have "outcome_ok r fin (final_events E message (ne_zero n))"
          by (simp add: final_ok_def)
        then have "prefix (map fst fin) (final_events E message (ne_zero n))"
          by (auto simp: outcome_ok_def split: sum.splits)
        from set_mono_prefix[OF this] final_events_alphabet[of E message "ne_zero n"]
        show ?thesis by blast
      qed
    qed
  qed
  with new show ?thesis by simp
qed

lemma guard_first:
  assumes "map fst pre @ Call doing_training as # ys = Call doing_training as # evs"
    and "Call doing_training as \<notin> set evs"
  shows "pre = []"
proof (cases pre)
  case Nil
  then show ?thesis by simp
next
  case (Cons p ps)
  with assms(1) have "evs = map fst ps @ Call doing_training as # ys" by simp
  with assms(2) show ?thesis by simp
qed

lemma last_round_reaches_ise:
  assumes last: "last_round E message rl rest"
    and out: "case rl of Inl e \<Rightarrow> r = Inl e \<and> fin = []
              | Inr u \<Rightarrow> stage_ok env E message rf fin"
    and split: "rest @ fin = pre @ x # suf"
    and x: "fst x = Call doing_training [Pos (tv_conf E)]" "answer x"
  shows "reaches_ise E r suf"
proof (cases rl)
  case (Inr u)
  with last have r1: "map fst rest = [Call doing_training [Pos (tv_conf E)]]"
    "\<not> answer (hd rest)" by (simp_all add: last_round_def)
  then obtain x0 where rest: "rest = [x0]" "\<not> answer x0" by (cases rest) auto
  from out Inr stage_events[of env E message rf fin] obtain d fin' where
    f: "fin = d # fin'" "fst d = Call do_final_build [Pos (tv_conf E)]"
       "set (map fst fin') \<subseteq> set (final_events E message True)" by auto
  from split have "x \<in> set (rest @ fin)" by simp
  with rest f(1) have "x = x0 \<or> x = d \<or> x \<in> set fin'" by auto
  then have False
  proof (elim disjE)
    assume "x = x0" with rest x show False by simp
  next
    assume "x = d" with f(2) x show False by simp
  next
    assume "x \<in> set fin'"
    then have "fst x \<in> set (map fst fin')" by simp
    with f(3) x(1) guard_notin_final[of "[Pos (tv_conf E)]" E message True] show False by auto
  qed
  then show ?thesis ..
next
  case (Inl e)
  with out have r: "r = Inl e" and fin: "fin = []" by simp_all
  from last Inl have lastrest: "fst (snd (last rest)) = Inl e"
    and pre: "prefix (map fst rest)
            (Call doing_training [Pos (tv_conf E)] # round_events E message True)"
    by (simp_all add: last_round_def)
  from pre obtain zs where
    zs: "Call doing_training [Pos (tv_conf E)] # round_events E message True = map fst rest @ zs"
    by (auto simp: prefix_def)
  from split fin have rest: "rest = pre @ x # suf" by simp
  with zs x(1) have "map fst pre @ Call doing_training [Pos (tv_conf E)] # (map fst suf @ zs)
      = Call doing_training [Pos (tv_conf E)] # round_events E message True" by simp
  from guard_first[OF this guard_notin_round] have p: "pre = []" .
  with rest zs x(1) have ev: "round_events E message True = map fst suf @ zs" by simp
  have ne: "suf \<noteq> []"
  proof
    assume "suf = []"
    with rest p lastrest have "fst (snd x) = Inl e" by simp
    with x(2) show False by (simp add: answer_def)
  qed
  with rest p lastrest have l: "fst (snd (last suf)) = Inl e" by simp
  show ?thesis
  proof (cases "6 \<le> length suf")
    case True
    then have "fst (suf ! 5) = (map fst suf @ zs) ! 5" by (simp add: nth_append)
    also have "\<dots> = Call indiv_standard_error [Pos (post E), Key ''ise'' (FloatV 2.0)]"
      unfolding ev[symmetric] by (simp add: round_events_def validation_events_def)
    finally show ?thesis using True by (simp add: reaches_ise_def)
  next
    case False
    with ne l r show ?thesis by (simp add: reaches_ise_def)
  qed
qed

lemma train_rounds_reach_ise:
  assumes run: "train env E auto message (w, []) = Some (r, (w', lg))"
    and split: "lg = pre @ x # suf"
    and x: "fst x = Call doing_training [Pos (tv_conf E)]" "answer x"
  shows "reaches_ise E r suf"
proof -
  from train_log[OF run] obtain a segs rest fin rl rf where
    lg: "lg = [] @ a # concat segs @ rest @ fin"
    and a: "fst a = Call auto_train [Pos (tv_conf E), Pos (BoolV auto)]"
    and segs: "list_all (validation_round E message) segs"
    and c: "case fst (snd a) of
              Inl e \<Rightarrow> r = Inl e \<and> segs = [] \<and> rest = [] \<and> fin = []
            | Inr v \<Rightarrow>
                last_round E message rl rest \<and>
                (case rl of
                   Inl e \<Rightarrow> r = Inl e \<and> fin = []
                 | Inr u \<Rightarrow> stage_ok env E message rf fin \<and> r = map_sum id (\<lambda>u. NoneV) rf)"
    by blast
  from lg split a x(1) obtain pre' where
    pre': "pre = a # pre'" "concat segs @ (rest @ fin) = pre' @ x # suf"
    by (cases pre) auto
  show ?thesis
  proof (cases "fst (snd a)")
    case (Inl e)
    with c pre'(2) show ?thesis by simp
  next
    case (Inr v)
    with c have last: "last_round E message rl rest"
      and out: "case rl of Inl e \<Rightarrow> r = Inl e \<and> fin = []
              | Inr u \<Rightarrow> stage_ok env E message rf fin"
      by (auto split: sum.splits)
    show ?thesis
      by (rule rounds_reach_ise[OF segs _ pre'(2) x])
         (rule last_round_reaches_ise[OF last out])
  qed
qed

lemma ex_train_log:
  "\<exists>r w' lg. train partition_env emu0 True False (plan0, []) = Some (r, (w', lg)) \<and>
     map fst (take 8 lg) =
       [ Call auto_train [Pos (tv_conf emu0), Pos (BoolV True)],
         Call doing_training [Pos (tv_conf emu0)],
         Call llhoptimize_full [Pos (opt_T emu0), Pos (config emu0), Pos (BoolV False)],
         Call remake [Pos (training emu0)],
         Call remake [Pos (validation emu0)],
         Call remake [Pos (post emu0)],
         Call mahalanobis_distance [Pos (post emu0)],
         Call indiv_standard_error [Pos (post emu0), Key ''ise'' (FloatV 2.0)] ] \<and>
     answer (lg ! 1) \<and> 8 \<le> length lg"
  by (simp add: train_def training_loop_def final_stage_def py_while.simps invoke_apply
        train_round_def next_round_def final_build_def py_if_def attr_def
        andthen_apply stmt_apply py_if_invoke_apply py_print_apply ret_def
        partition_env_def partition_perform_def partition_getattr_def plan0_def emu0_def
        V_block_def answer_def)

section \<open>The diagnostics of a round\<close>

text \<open>
  Claim C5. In every validation round of \<^verbatim>\<open>train\<close> the call
  \<^verbatim>\<open>E.post.indiv_standard_error(ise=2.0)\<close> is made: whenever \<^verbatim>\<open>doing_training\<close> returned a true
  value, the sixth entry logged after it is that call, with the threshold 2.0, unless one of
  the five calls before it raised, and then the log ends there with that exception, which is
  the result of \<^verbatim>\<open>train\<close>. Every call of \<^verbatim>\<open>indiv_standard_error\<close> that \<^verbatim>\<open>train\<close> makes has the
  arguments \<^verbatim>\<open>(E.post, ise=2.0)\<close>. And the values returned by the two diagnostics influence
  nothing: replace them by any values whatever (\<open>with_diagnostics d\<close>), and \<^verbatim>\<open>train\<close> returns
  or diverges exactly as before, with the same result, the same final state of the
  collaborators, and the same log of calls and of values returned by every other function,
  among them \<^verbatim>\<open>check_still_training\<close> and \<^verbatim>\<open>doing_training\<close>, which alone decide whether
  another round is run.
\<close>

theorem diagnostics_do_not_steer:
  "observed (train (with_diagnostics d env) E auto message (w, []))
     = observed (train env E auto message (w, []))
   \<and> (\<forall>r w' lg pre x suf. train env E auto message (w, []) = Some (r, (w', lg)) \<longrightarrow>
         lg = pre @ x # suf \<longrightarrow> fst x = Call doing_training [Pos (tv_conf E)] \<longrightarrow> answer x \<longrightarrow>
         (6 \<le> length suf \<and>
            fst (suf ! 5) = Call indiv_standard_error [Pos (post E), Key ''ise'' (FloatV 2.0)]) \<or>
         (length suf < 6 \<and> suf \<noteq> [] \<and> (\<exists>e. r = Inl e \<and> fst (snd (last suf)) = Inl e)))
   \<and> (\<forall>r w' lg as. train env E auto message (w, []) = Some (r, (w', lg)) \<longrightarrow>
         Call indiv_standard_error as \<in> set (map fst lg) \<longrightarrow>
         as = [Pos (post E), Key ''ise'' (FloatV 2.0)])"
proof (intro conjI allI impI)
  show "observed (train (with_diagnostics d env) E auto message (w, []))
     = observed (train env E auto message (w, []))"
    by (rule observed_eq[OF train_follows(2) train_follows(1)])
next
  fix r w' lg pre x suf
  assume "train env E auto message (w, []) = Some (r, (w', lg))" "lg = pre @ x # suf"
    "fst x = Call doing_training [Pos (tv_conf E)]" "answer x"
  from train_rounds_reach_ise[OF this]
  show "(6 \<le> length suf \<and>
            fst (suf ! 5) = Call indiv_standard_error [Pos (post E), Key ''ise'' (FloatV 2.0)]) \<or>
         (length suf < 6 \<and> suf \<noteq> [] \<and> (\<exists>e. r = Inl e \<and> fst (snd (last suf)) = Inl e))"
    by (simp add: reaches_ise_def)
next
  fix r w' lg as
  assume run: "train env E auto message (w, []) = Some (r, (w', lg))"
    and mem: "Call indiv_standard_error as \<in> set (map fst lg)"
  from train_alphabet[OF run] have "set (map fst lg) \<subseteq> set (train_events E auto message)"
    by auto
  with mem have "Call indiv_standard_error as \<in> set (train_events E auto message)" by blast
  then show "as = [Pos (post E), Key ''ise'' (FloatV 2.0)]"
    by (auto simp: train_events_def round_events_def validation_events_def next_events_def
          final_events_def)
qed

theorem diagnostics_do_not_steer_witness:
  "observed (train (with_diagnostics (\<lambda>f as w. IntV 7) partition_env) emu0 True False (plan0, []))
     = observed (train partition_env emu0 True False (plan0, []))
   \<and> (\<exists>r w' lg.
         train partition_env emu0 True False (plan0, []) = Some (r, (w', lg)) \<and>
         lg = take 1 lg @ lg ! 1 # drop 2 lg \<and>
         fst (lg ! 1) = Call doing_training [Pos (tv_conf emu0)] \<and> answer (lg ! 1) \<and>
         ((6 \<le> length (drop 2 lg) \<and>
            fst (drop 2 lg ! 5) =
              Call indiv_standard_error [Pos (post emu0), Key ''ise'' (FloatV 2.0)]) \<or>
          (length (drop 2 lg) < 6 \<and> drop 2 lg \<noteq> [] \<and>
             (\<exists>e. r = Inl e \<and> fst (snd (last (drop 2 lg))) = Inl e))) \<and>
         Call indiv_standard_error [Pos (post emu0), Key ''ise'' (FloatV 2.0)]
           \<in> set (map fst lg))"
proof -
  let ?ise = "Call indiv_standard_error [Pos (post emu0), Key ''ise'' (FloatV 2.0)]"
  obtain r w' lg where
    run: "train partition_env emu0 True False (plan0, []) = Some (r, (w', lg))"
    and ev: "map fst (take 8 lg) =
       [ Call auto_train [Pos (tv_conf emu0), Pos (BoolV True)],
         Call doing_training [Pos (tv_conf emu0)],
         Call llhoptimize_full [Pos (opt_T emu0), Pos (config emu0), Pos (BoolV False)],
         Call remake [Pos (training emu0)],
         Call remake [Pos (validation emu0)],
         Call remake [Pos (post emu0)],
         Call mahalanobis_distance [Pos (post emu0)],
         ?ise ]"
    and ans: "answer (lg ! 1)" and len: "8 \<le> length lg"
    using ex_train_log by (elim exE conjE) (rule that)
  from len have split: "lg = take 1 lg @ lg ! 1 # drop 2 lg"
    using id_take_nth_drop[of 1 lg] by (simp add: numeral_2_eq_2)
  from len have "fst (lg ! 1) = map fst (take 8 lg) ! 1" by simp
  with ev have guard: "fst (lg ! 1) = Call doing_training [Pos (tv_conf emu0)]" by simp
  have "?ise \<in> set (map fst (take 8 lg))" unfolding ev by simp
  then have mem: "?ise \<in> set (map fst lg)"
    using set_take_subset[of 8 lg] by auto
  note main = diagnostics_do_not_steer[of "\<lambda>f as w. IntV 7" partition_env emu0 True False plan0]
  from main have eq: "observed (train (with_diagnostics (\<lambda>f as w. IntV 7) partition_env) emu0
       True False (plan0, [])) = observed (train partition_env emu0 True False (plan0, []))"
    by (rule conjunct1)
  from main have "\<forall>r w' lg pre x suf.
      train partition_env emu0 True False (plan0, []) = Some (r, (w', lg)) \<longrightarrow>
      lg = pre @ x # suf \<longrightarrow> fst x = Call doing_training [Pos (tv_conf emu0)] \<longrightarrow> answer x \<longrightarrow>
      (6 \<le> length suf \<and> fst (suf ! 5) = ?ise) \<or>
      (length suf < 6 \<and> suf \<noteq> [] \<and> (\<exists>e. r = Inl e \<and> fst (snd (last suf)) = Inl e))"
    by (rule conjunct1[OF conjunct2])
  from this[rule_format, OF run split guard ans]
  have round: "(6 \<le> length (drop 2 lg) \<and> fst (drop 2 lg ! 5) = ?ise) \<or>
      (length (drop 2 lg) < 6 \<and> drop 2 lg \<noteq> [] \<and>
         (\<exists>e. r = Inl e \<and> fst (snd (last (drop 2 lg))) = Inl e))" .
  show ?thesis
    apply (rule conjI[OF eq])
    apply (rule exI[of _ r], rule exI[of _ w'], rule exI[of _ lg])
    using run split guard ans round mem by (intro conjI)
qed

section \<open>The posterior at the final build\<close>

lemma split_unique:
  assumes "xs @ d0 # ys = pre @ d # fin" and "P d" and "\<forall>x\<in>set xs. \<not> P x"
    and "\<forall>y\<in>set ys. \<not> P y"
  shows "pre = xs \<and> d = d0 \<and> fin = ys"
  using assms(1,3)
proof (induction xs arbitrary: pre)
  case Nil
  show ?case
  proof (cases pre)
    case Nil
    with Nil.prems show ?thesis by simp
  next
    case (Cons p ps)
    with Nil.prems have "d \<in> set ys" by auto
    with assms(2,4) show ?thesis by blast
  qed
next
  case (Cons x xs)
  show ?case
  proof (cases pre)
    case Nil
    with Cons.prems have "x = d" by simp
    with Cons.prems(2) assms(2) show ?thesis by simp
  next
    case (Cons p ps)
    with Cons.prems have "xs @ d0 # ys = ps @ d # fin" "p = x" "\<forall>x\<in>set xs. \<not> P x" by simp_all
    with Cons.IH[of ps] Cons show ?thesis by simp
  qed
qed

lemma loop_alphabet:
  assumes "list_all (validation_round E message) segs" and "last_round E message rl rest"
  shows "set (map fst (concat segs @ rest))
           \<subseteq> insert (Call doing_training [Pos (tv_conf E)]) (set (round_events E message True))"
proof -
  have seg: "set (map fst seg)
           \<subseteq> insert (Call doing_training [Pos (tv_conf E)]) (set (round_events E message True))"
    if "validation_round E message seg" for seg :: "'a entry list"
  proof -
    from that have "set (map fst seg) \<subseteq>
      insert (Call doing_training [Pos (tv_conf E)]) (set (round_events E message (answer (seg ! 9))))"
      by (simp add: validation_round_def)
    with round_events_alphabet[of E message "answer (seg ! 9)"] show ?thesis by auto
  qed
  have rest: "set (map fst rest)
           \<subseteq> insert (Call doing_training [Pos (tv_conf E)]) (set (round_events E message True))"
  proof (cases rl)
    case (Inl e)
    with assms(2) have "prefix (map fst rest)
      (Call doing_training [Pos (tv_conf E)] # round_events E message True)"
      by (simp add: last_round_def)
    from set_mono_prefix[OF this] show ?thesis by auto
  next
    case (Inr u)
    with assms(2) show ?thesis by (simp add: last_round_def)
  qed
  from assms(1) seg have "set (map fst (concat segs))
           \<subseteq> insert (Call doing_training [Pos (tv_conf E)]) (set (round_events E message True))"
    by (auto simp: list_all_iff)
  with rest show ?thesis by auto
qed

lemma final_notin_loop:
  "Call do_final_build as
     \<notin> insert (Call doing_training bs) (set (round_events E message True))"
  by (auto simp: round_events_def validation_events_def next_events_def)

lemma final_notin_final:
  "Call do_final_build as \<notin> set (final_events E message True)"
  by (auto simp: final_events_def)

lemma loop_posterior_fresh:
  assumes segs: "list_all (validation_round E message) segs"
    and x0: "fst x0 = Call doing_training [Pos (tv_conf E)]"
    and a: "fst a = Call auto_train [Pos (tv_conf E), Pos (BoolV auto)]"
  shows "Call llhoptimize_full [Pos (opt_T E), Pos (config E), Pos (BoolV message)]
           \<notin> set (since_posterior_remake E (map fst (a # concat segs @ [x0])))"
    and "(Call remake [Pos (post E)] \<in> set (map fst (a # concat segs @ [x0]))) =
         (Call llhoptimize_full [Pos (opt_T E), Pos (config E), Pos (BoolV message)]
            \<in> set (map fst (a # concat segs @ [x0])))"
proof -
  let ?llh = "Call llhoptimize_full [Pos (opt_T E), Pos (config E), Pos (BoolV message)]"
  let ?rP = "Call remake [Pos (post E)]"
  have both: "?llh \<notin> set (since_posterior_remake E (map fst (a # concat segs @ [x0]))) \<and>
     ((?rP \<in> set (map fst (a # concat segs @ [x0]))) =
      (?llh \<in> set (map fst (a # concat segs @ [x0]))))"
  proof (cases segs rule: rev_cases)
    case Nil
    with x0 a show ?thesis by (simp add: since_posterior_remake_def)
  next
    case (snoc ss seg)
    with segs have "validation_round E message seg" by simp
    then have ev: "map fst seg =
        Call doing_training [Pos (tv_conf E)] # round_events E message (answer (seg ! 9))"
      by (simp add: validation_round_def)
    have key: "set (takeWhile (\<lambda>e. e \<noteq> ?rP) (rev (map fst seg) @ R))
        \<subseteq> {Call check_still_training [Pos (tv_conf E)],
            Call final_design_points [Pos (post E), Pos (self E), Pos (BoolV False)],
            Call final_beliefs [Pos (beliefs E), Pos (self E), Pos (BoolV False)],
            Call indiv_standard_error [Pos (post E), Key ''ise'' (FloatV 2.0)],
            Call mahalanobis_distance [Pos (post E)]}" for R
      unfolding ev
      by (cases "answer (seg ! 9)")
         (simp_all add: round_events_def validation_events_def next_events_def)
    have inseg: "?rP \<in> set (map fst seg)" "?llh \<in> set (map fst seg)"
      unfolding ev by (simp_all add: round_events_def validation_events_def)
    have "rev (map fst (a # concat segs @ [x0]))
        = Call doing_training [Pos (tv_conf E)]
          # (rev (map fst seg) @ rev (map fst (concat ss)) @ [fst a])"
      using snoc x0 by simp
    then have "set (since_posterior_remake E (map fst (a # concat segs @ [x0])))
        \<subseteq> insert (Call doing_training [Pos (tv_conf E)])
            (set (takeWhile (\<lambda>e. e \<noteq> ?rP)
               (rev (map fst seg) @ rev (map fst (concat ss)) @ [fst a])))"
      unfolding since_posterior_remake_def by simp
    with key[of "rev (map fst (concat ss)) @ [fst a]"]
    have "?llh \<notin> set (since_posterior_remake E (map fst (a # concat segs @ [x0])))"
      by auto
    moreover from inseg snoc have "?rP \<in> set (map fst (a # concat segs @ [x0]))"
      "?llh \<in> set (map fst (a # concat segs @ [x0]))" by simp_all
    ultimately show ?thesis by simp
  qed
  from both show "?llh \<notin> set (since_posterior_remake E (map fst (a # concat segs @ [x0])))" ..
  from both show "(?rP \<in> set (map fst (a # concat segs @ [x0]))) =
      (?llh \<in> set (map fst (a # concat segs @ [x0])))" ..
qed

lemma final_stage_found:
  assumes run: "train env E auto message (w, []) = Some (r, (w', lg))"
    and split: "lg = pre @ d # fin"
    and d: "fst d = Call do_final_build [Pos (tv_conf E)]"
  shows "\<exists>a segs x0 rf. pre = a # concat segs @ [x0] \<and>
           fst a = Call auto_train [Pos (tv_conf E), Pos (BoolV auto)] \<and>
           list_all (validation_round E message) segs \<and>
           fst x0 = Call doing_training [Pos (tv_conf E)] \<and>
           stage_ok env E message rf (d # fin) \<and> r = map_sum id (\<lambda>u. NoneV) rf"
proof -
  let ?dfb = "Call do_final_build [Pos (tv_conf E)]"
  let ?loop = "insert (Call doing_training [Pos (tv_conf E)]) (set (round_events E message True))"
  from train_log[OF run] obtain a segs rest fin0 rl rf where
    lg: "lg = a # concat segs @ rest @ fin0"
    and a: "fst a = Call auto_train [Pos (tv_conf E), Pos (BoolV auto)]"
    and segs: "list_all (validation_round E message) segs"
    and c: "case fst (snd a) of
              Inl e \<Rightarrow> r = Inl e \<and> segs = [] \<and> rest = [] \<and> fin0 = []
            | Inr v \<Rightarrow>
                last_round E message rl rest \<and>
                (case rl of
                   Inl e \<Rightarrow> r = Inl e \<and> fin0 = []
                 | Inr u \<Rightarrow> stage_ok env E message rf fin0 \<and> r = map_sum id (\<lambda>u. NoneV) rf)"
    by auto
  from split d have dmem: "?dfb \<in> set (map fst lg)" by force
  show ?thesis
  proof (cases "fst (snd a)")
    case (Inl e)
    with c lg a dmem show ?thesis by simp
  next
    case (Inr v)
    with c have last: "last_round E message rl rest" by simp
    from loop_alphabet[OF segs last] final_notin_loop[of "[Pos (tv_conf E)]" "[Pos (tv_conf E)]" E message]
    have noloop: "?dfb \<notin> set (map fst (concat segs @ rest))" by blast
    show ?thesis
    proof (cases rl)
      case (Inl e)
      with c Inr have "fin0 = []" by simp
      with lg a dmem noloop show ?thesis by simp
    next
      case (Inr u)
      with c \<open>fst (snd a) = Inr v\<close> have st: "stage_ok env E message rf fin0"
        and r: "r = map_sum id (\<lambda>u. NoneV) rf" by simp_all
      from stage_events[OF st] obtain d0 fin' where
        f: "fin0 = d0 # fin'" "fst d0 = ?dfb"
           "set (map fst fin') \<subseteq> set (final_events E message True)" by blast
      from last Inr have "map fst rest = [Call doing_training [Pos (tv_conf E)]]"
        by (simp add: last_round_def)
      then obtain x0 where rest: "rest = [x0]" "fst x0 = Call doing_training [Pos (tv_conf E)]"
        by (cases rest) auto
      have eq: "(a # concat segs @ rest) @ d0 # fin' = pre @ d # fin"
        using lg f(1) split by simp
      have 1: "\<forall>x\<in>set (a # concat segs @ rest). \<not> (fst x = ?dfb)"
      proof
        fix x
        assume "x \<in> set (a # concat segs @ rest)"
        then consider "x = a" | "x \<in> set (concat segs @ rest)" by auto
        then show "\<not> (fst x = ?dfb)"
        proof cases
          case 1
          with a show ?thesis by simp
        next
          case 2
          then have "fst x \<in> set (map fst (concat segs @ rest))"
            by (metis imageI list.set_map)
          with noloop show ?thesis by metis
        qed
      qed
      have 2: "\<forall>y\<in>set fin'. \<not> (fst y = ?dfb)"
        using f(3) final_notin_final[of "[Pos (tv_conf E)]" E message] by auto
      from split_unique[where P = "\<lambda>x. fst x = ?dfb", OF eq d 1 2]
      have "pre = a # concat segs @ rest" "d = d0" "fin = fin'" by simp_all
      with rest a segs st r f(1) show ?thesis by blast
    qed
  qed
qed

lemma ex_train_final:
  "\<exists>w' lg. train partition_env emu0 True False (plan0, []) = Some (Inr NoneV, (w', lg)) \<and>
     length lg = 37 \<and> fst (lg ! 29) = Call do_final_build [Pos (tv_conf emu0)] \<and>
     answer (lg ! 29)"
  by (simp add: train_def training_loop_def final_stage_def py_while.simps invoke_apply
        train_round_def next_round_def final_build_def py_if_def attr_def
        andthen_apply stmt_apply py_if_invoke_apply py_print_apply ret_def
        partition_env_def partition_perform_def partition_getattr_def plan0_def emu0_def
        V_block_def answer_def)

text \<open>
  Claim C7, as amended. \<^verbatim>\<open>E.validation\<close> and \<^verbatim>\<open>E.post\<close> are other objects than
  \<^verbatim>\<open>E.training\<close>. A call of \<^verbatim>\<open>train\<close> that returns has called \<^verbatim>\<open>do_final_build\<close>. Whatever is
  logged after the call of \<^verbatim>\<open>do_final_build\<close> has no \<^verbatim>\<open>E.validation.remake()\<close> and no
  \<^verbatim>\<open>E.post.remake()\<close>; it is nothing at all when \<^verbatim>\<open>do_final_build\<close> did not return a true
  value; and when it did and \<^verbatim>\<open>train\<close> returns, it ends with \<^verbatim>\<open>llhoptimize_full\<close>, the remake
  of training, \<^verbatim>\<open>final_beliefs(E, True)\<close> and \<^verbatim>\<open>final_design_points(E, True)\<close>. So the
  posterior that \<^verbatim>\<open>final_design_points(E, True)\<close> is called on was not remade after the final
  optimisation, nor after the fold of the validation block. Before the call of
  \<^verbatim>\<open>do_final_build\<close>, no optimisation follows the last remake of the posterior, and the
  posterior was remade exactly when an optimisation was run: it was last remade in the last
  round, under the hyperparameters of that round, when there was a round, and \<^verbatim>\<open>train\<close> never
  remade it when there was none.
\<close>

theorem final_build_remakes_training_only:
  assumes distinct: "validation E \<noteq> training E" "post E \<noteq> training E"
  assumes run: "train env E auto message (w, []) = Some (r, (w', lg))"
  shows "(\<forall>v. r = Inr v \<longrightarrow> Call do_final_build [Pos (tv_conf E)] \<in> set (map fst lg)) \<and>
         (\<forall>pre d fin. lg = pre @ d # fin \<longrightarrow> fst d = Call do_final_build [Pos (tv_conf E)] \<longrightarrow>
            Call remake [Pos (validation E)] \<notin> set (map fst fin) \<and>
            Call remake [Pos (post E)] \<notin> set (map fst fin) \<and>
            (\<not> answer d \<longrightarrow> fin = []) \<and>
            (answer d \<longrightarrow> (\<exists>v. r = Inr v) \<longrightarrow>
               (\<exists>evs. map fst fin = evs @
                  [ Call llhoptimize_full [Pos (opt_T E), Pos (config E), Pos (BoolV message)],
                    Call remake [Pos (training E)],
                    Call final_beliefs [Pos (beliefs E), Pos (self E), Pos (BoolV True)],
                    Call final_design_points [Pos (post E), Pos (self E), Pos (BoolV True)] ])) \<and>
            Call llhoptimize_full [Pos (opt_T E), Pos (config E), Pos (BoolV message)]
              \<notin> set (since_posterior_remake E (map fst pre)) \<and>
            (Call remake [Pos (post E)] \<in> set (map fst pre)) =
            (Call llhoptimize_full [Pos (opt_T E), Pos (config E), Pos (BoolV message)]
               \<in> set (map fst pre)))"
proof (intro conjI allI impI)
  fix v
  assume rv: "r = Inr v"
  from train_log[OF run] obtain a segs rest fin0 rl rf where
    lg: "lg = [] @ a # concat segs @ rest @ fin0"
    and c: "case fst (snd a) of
              Inl e \<Rightarrow> r = Inl e \<and> segs = [] \<and> rest = [] \<and> fin0 = []
            | Inr v \<Rightarrow>
                last_round E message rl rest \<and>
                (case rl of
                   Inl e \<Rightarrow> r = Inl e \<and> fin0 = []
                 | Inr u \<Rightarrow> stage_ok env E message rf fin0 \<and> r = map_sum id (\<lambda>u. NoneV) rf)"
    by blast
  from c rv have "stage_ok env E message rf fin0"
    by (auto split: sum.splits)
  from stage_events[OF this] lg
  show "Call do_final_build [Pos (tv_conf E)] \<in> set (map fst lg)" by force
next
  fix pre d fin
  assume split: "lg = pre @ d # fin" and d: "fst d = Call do_final_build [Pos (tv_conf E)]"
  from final_stage_found[OF run split d] obtain a segs x0 rf where
    pre: "pre = a # concat segs @ [x0]"
    and a: "fst a = Call auto_train [Pos (tv_conf E), Pos (BoolV auto)]"
    and segs: "list_all (validation_round E message) segs"
    and x0: "fst x0 = Call doing_training [Pos (tv_conf E)]"
    and st: "stage_ok env E message rf (d # fin)"
    and r: "r = map_sum id (\<lambda>u. NoneV) rf" by blast
  from stage_events[OF st] have sub: "set (map fst fin) \<subseteq> set (final_events E message True)"
    by simp
  from sub distinct show "Call remake [Pos (validation E)] \<notin> set (map fst fin)"
    by (auto simp: final_events_def)
  from sub distinct show "Call remake [Pos (post E)] \<notin> set (map fst fin)"
    by (auto simp: final_events_def)
  show "fin = []" if "\<not> answer d"
    using st that by (cases d) (auto simp: stage_ok_def answer_def split: sum.splits if_splits)
  show "\<exists>evs. map fst fin = evs @
          [ Call llhoptimize_full [Pos (opt_T E), Pos (config E), Pos (BoolV message)],
            Call remake [Pos (training E)],
            Call final_beliefs [Pos (beliefs E), Pos (self E), Pos (BoolV True)],
            Call final_design_points [Pos (post E), Pos (self E), Pos (BoolV True)] ]"
    if ans: "answer d" and ret: "\<exists>v. r = Inr v"
  proof -
    from ret r have rf: "rf = Inr ()" by (cases rf) auto
    obtain ev rd wd where dd: "d = (ev, rd, wd)" by (cases d)
    with st ans rf have ok: "final_ok env E message wd (Inr ()) fin"
      by (auto simp: stage_ok_def answer_def split: sum.splits if_splits)
    then obtain n where "map fst fin = final_events E message (ne_zero n)"
      by (auto simp: final_ok_def outcome_ok_def split: sum.splits)
    then have "map fst fin =
        (Print (CHR 0x0A # ''***Doing final build***'')
         # (if ne_zero n then [Call incVinT [Pos (post E)]] else [])
         @ [Call remake [Pos (training E)]]) @
          [ Call llhoptimize_full [Pos (opt_T E), Pos (config E), Pos (BoolV message)],
            Call remake [Pos (training E)],
            Call final_beliefs [Pos (beliefs E), Pos (self E), Pos (BoolV True)],
            Call final_design_points [Pos (post E), Pos (self E), Pos (BoolV True)] ]"
      by (simp add: final_events_def)
    then show ?thesis by blast
  qed
  from loop_posterior_fresh(1)[OF segs x0 a] pre
  show "Call llhoptimize_full [Pos (opt_T E), Pos (config E), Pos (BoolV message)]
              \<notin> set (since_posterior_remake E (map fst pre))" by simp
  from loop_posterior_fresh(2)[OF segs x0 a] pre
  show "(Call remake [Pos (post E)] \<in> set (map fst pre)) =
            (Call llhoptimize_full [Pos (opt_T E), Pos (config E), Pos (BoolV message)]
               \<in> set (map fst pre))" by simp
qed

theorem final_build_remakes_training_only_witness:
  "validation emu0 \<noteq> training emu0 \<and> post emu0 \<noteq> training emu0 \<and>
   (\<exists>r w' lg. train partition_env emu0 True False (plan0, []) = Some (r, (w', lg)) \<and>
      (\<exists>v. r = Inr v) \<and>
      lg = take 29 lg @ lg ! 29 # drop 30 lg \<and>
      fst (lg ! 29) = Call do_final_build [Pos (tv_conf emu0)] \<and> answer (lg ! 29) \<and>
      Call remake [Pos (validation emu0)] \<notin> set (map fst (drop 30 lg)) \<and>
      Call remake [Pos (post emu0)] \<notin> set (map fst (drop 30 lg)) \<and>
      (\<exists>evs. map fst (drop 30 lg) = evs @
         [ Call llhoptimize_full [Pos (opt_T emu0), Pos (config emu0), Pos (BoolV False)],
           Call remake [Pos (training emu0)],
           Call final_beliefs [Pos (beliefs emu0), Pos (self emu0), Pos (BoolV True)],
           Call final_design_points [Pos (post emu0), Pos (self emu0), Pos (BoolV True)] ]) \<and>
      Call llhoptimize_full [Pos (opt_T emu0), Pos (config emu0), Pos (BoolV False)]
        \<notin> set (since_posterior_remake emu0 (map fst (take 29 lg))) \<and>
      (Call remake [Pos (post emu0)] \<in> set (map fst (take 29 lg))) =
      (Call llhoptimize_full [Pos (opt_T emu0), Pos (config emu0), Pos (BoolV False)]
         \<in> set (map fst (take 29 lg))))"
proof -
  have dist: "validation emu0 \<noteq> training emu0" "post emu0 \<noteq> training emu0"
    by (simp_all add: emu0_def)
  obtain w' lg where
    run: "train partition_env emu0 True False (plan0, []) = Some (Inr NoneV, (w', lg))"
    and len: "length lg = 37"
    and d: "fst (lg ! 29) = Call do_final_build [Pos (tv_conf emu0)]"
    and ans: "answer (lg ! 29)"
    using ex_train_final by (elim exE conjE) (rule that)
  from len have split: "lg = take 29 lg @ lg ! 29 # drop 30 lg"
    using id_take_nth_drop[of 29 lg] by simp
  have ret: "\<exists>v. (Inr NoneV :: error + val) = Inr v" by simp
  note main = final_build_remakes_training_only[OF dist run, THEN conjunct2, rule_format,
      OF split d]
  from main have 1: "Call remake [Pos (validation emu0)] \<notin> set (map fst (drop 30 lg))"
    by (rule conjunct1)
  from main have 2: "Call remake [Pos (post emu0)] \<notin> set (map fst (drop 30 lg))"
    by (rule conjunct1[OF conjunct2])
  from main have "answer (lg ! 29) \<longrightarrow> (\<exists>v. (Inr NoneV :: error + val) = Inr v) \<longrightarrow>
      (\<exists>evs. map fst (drop 30 lg) = evs @
         [ Call llhoptimize_full [Pos (opt_T emu0), Pos (config emu0), Pos (BoolV False)],
           Call remake [Pos (training emu0)],
           Call final_beliefs [Pos (beliefs emu0), Pos (self emu0), Pos (BoolV True)],
           Call final_design_points [Pos (post emu0), Pos (self emu0), Pos (BoolV True)] ])"
    by (rule conjunct1[OF conjunct2[OF conjunct2[OF conjunct2]]])
  from this[rule_format, OF ans ret] have 3: "\<exists>evs. map fst (drop 30 lg) = evs @
         [ Call llhoptimize_full [Pos (opt_T emu0), Pos (config emu0), Pos (BoolV False)],
           Call remake [Pos (training emu0)],
           Call final_beliefs [Pos (beliefs emu0), Pos (self emu0), Pos (BoolV True)],
           Call final_design_points [Pos (post emu0), Pos (self emu0), Pos (BoolV True)] ]" .
  from main have 4: "Call llhoptimize_full [Pos (opt_T emu0), Pos (config emu0), Pos (BoolV False)]
        \<notin> set (since_posterior_remake emu0 (map fst (take 29 lg)))"
    by (rule conjunct1[OF conjunct2[OF conjunct2[OF conjunct2[OF conjunct2]]]])
  from main have 5: "(Call remake [Pos (post emu0)] \<in> set (map fst (take 29 lg))) =
      (Call llhoptimize_full [Pos (opt_T emu0), Pos (config emu0), Pos (BoolV False)]
         \<in> set (map fst (take 29 lg)))"
    by (rule conjunct2[OF conjunct2[OF conjunct2[OF conjunct2[OF conjunct2]]]])
  show ?thesis
    apply (intro conjI dist)
    apply (rule exI[of _ "Inr NoneV"], rule exI[of _ w'], rule exI[of _ lg])
    using run ret split d ans 1 2 3 4 5 by (intro conjI)
qed

text \<open>
  The claim as worded fails when no round is run: with no validation block, \<^verbatim>\<open>train\<close> calls
  \<^verbatim>\<open>final_design_points(E, True)\<close> and has remade the posterior in no round at all.
\<close>

theorem final_build_posterior_never_rebuilt:
  "events_of (train partition_env emu0 True False (plan_without_validation, [])) =
     [ Call auto_train [Pos (tv_conf emu0), Pos (BoolV True)],
       Call doing_training [Pos (tv_conf emu0)],
       Call do_final_build [Pos (tv_conf emu0)],
       Print (CHR 0x0A # ''***Doing final build***''),
       Call remake [Pos (training emu0)],
       Call llhoptimize_full [Pos (opt_T emu0), Pos (config emu0), Pos (BoolV False)],
       Call remake [Pos (training emu0)],
       Call final_beliefs [Pos (beliefs emu0), Pos (self emu0), Pos (BoolV True)],
       Call final_design_points [Pos (post emu0), Pos (self emu0), Pos (BoolV True)] ] \<and>
   Call remake [Pos (post emu0)]
     \<notin> set (events_of (train partition_env emu0 True False (plan_without_validation, [])))"
  by (simp add: events_of_def train_def training_loop_def final_stage_def py_while.simps
        invoke_apply train_round_def next_round_def final_build_def py_if_def attr_def
        andthen_apply stmt_apply py_if_invoke_apply py_print_apply ret_def
        partition_env_def partition_perform_def partition_getattr_def
        plan_without_validation_def emu0_def V_block_def)

section \<open>The log of plot\<close>

lemma reading_apply: "reading f (w, lg) = Some (f w, (w, lg))"
  by (simp add: reading_def)




lemma ex_plot_one_label:
  "plot fresh_env str_of_int emu0 [0] [1] [0.5] ''mean'' [StrV ''x''] (store0, [])
     = Some (Inl IndexError,
         (store0, [(Print (CHR 0x0A # ''***Generating plot***''), Inr NoneV, store0)]))"
  by (simp add: plot_def plot_calls_def pn_def andthen_apply reading_apply py_print_apply
      invoke_apply stmt_apply ret_def dim_of_def one_d_of_def labels_of_def custom_labels_def
      bind_err_def item_def fresh_env_def fresh_perform_def fresh_getattr_def emu0_def store0_def
      str_of_int_def)






lemma custom_labels_short:
  "length customLabels = 1 \<Longrightarrow> custom_labels customLabels = Inl IndexError"
  by (simp add: custom_labels_def item_def bind_err_def)

lemma custom_labels_long:
  "2 \<le> length customLabels \<Longrightarrow>
     custom_labels customLabels = Inr (customLabels ! 0, customLabels ! 1)"
  by (auto simp: custom_labels_def item_def bind_err_def)

lemma plot_no_labels:
  assumes "labels_of env str_of E plot_dims dimension one_d customLabels w = Inl e"
    and "dim_of env E w = Inr dimension" and "one_d_of plot_dims dimension = Inr one_d"
  shows "plot env str_of E plot_dims fixed_dims fixed_vals mean_or_var customLabels (w, lg)
     = Some (Inl e, (w, lg @ [(Print (CHR 0x0A # ''***Generating plot***''), Inr NoneV, w)]))"
  using assms by (simp add: plot_def andthen_apply reading_apply py_print_apply)

lemma plot_no_dim:
  assumes "dim_of env E w = Inl e"
  shows "plot env str_of E plot_dims fixed_dims fixed_vals mean_or_var customLabels (w, lg)
     = Some (Inl e, (w, lg))"
  using assms by (simp add: plot_def andthen_apply reading_apply)

lemma plot_no_one_d:
  assumes "dim_of env E w = Inr dimension" and "one_d_of plot_dims dimension = Inl e"
  shows "plot env str_of E plot_dims fixed_dims fixed_vals mean_or_var customLabels (w, lg)
     = Some (Inl e, (w, lg @ [(Print (CHR 0x0A # ''***Generating plot***''), Inr NoneV, w)]))"
  using assms by (simp add: plot_def andthen_apply reading_apply py_print_apply)

section \<open>The labels of a plot\<close>

text \<open>
  Claim C10. With a \<^verbatim>\<open>customLabels\<close> of one element the labels are not built: in both
  branches \<^verbatim>\<open>customLabels[1]\<close> is read and raises \<^verbatim>\<open>IndexError\<close>, whatever the dimension
  and the branch. So \<^verbatim>\<open>plot\<close> raises \<^verbatim>\<open>IndexError\<close> right after its \<^verbatim>\<open>print\<close>, with no call
  of a collaborator, unless reading the dimension or comparing it with 1 raised before. With
  two elements or more the labels are \<^verbatim>\<open>customLabels[0]\<close> and \<^verbatim>\<open>customLabels[1]\<close>: only the
  empty list selects the default labels.
\<close>

theorem single_custom_label_raises:
  "(length customLabels = 1 \<longrightarrow>
      labels_of env str_of E plot_dims dimension one_d customLabels w = Inl IndexError) \<and>
   (2 \<le> length customLabels \<longrightarrow>
      labels_of env str_of E plot_dims dimension one_d customLabels w
        = Inr (customLabels ! 0, customLabels ! 1)) \<and>
   (length customLabels = 1 \<longrightarrow>
      plot env str_of E plot_dims fixed_dims fixed_vals mean_or_var customLabels (w, lg) =
        (case dim_of env E w of
           Inl e \<Rightarrow> Some (Inl e, (w, lg))
         | Inr dm \<Rightarrow>
             Some (case one_d_of plot_dims dm of Inl e \<Rightarrow> Inl e | Inr od \<Rightarrow> Inl IndexError,
                   (w, lg @ [(Print (CHR 0x0A # ''***Generating plot***''), Inr NoneV, w)]))))"
proof (intro conjI impI)
  assume "length customLabels = 1"
  then show "labels_of env str_of E plot_dims dimension one_d customLabels w = Inl IndexError"
    by (auto simp: labels_of_def custom_labels_short)
next
  assume "2 \<le> length customLabels"
  then show "labels_of env str_of E plot_dims dimension one_d customLabels w
        = Inr (customLabels ! 0, customLabels ! 1)"
    by (auto simp: labels_of_def custom_labels_long)
next
  assume one: "length customLabels = 1"
  have lab: "labels_of env str_of E plot_dims dm od customLabels w = Inl IndexError" for dm od
    using one by (auto simp: labels_of_def custom_labels_short)
  show "plot env str_of E plot_dims fixed_dims fixed_vals mean_or_var customLabels (w, lg) =
        (case dim_of env E w of
           Inl e \<Rightarrow> Some (Inl e, (w, lg))
         | Inr dm \<Rightarrow>
             Some (case one_d_of plot_dims dm of Inl e \<Rightarrow> Inl e | Inr od \<Rightarrow> Inl IndexError,
                   (w, lg @ [(Print (CHR 0x0A # ''***Generating plot***''), Inr NoneV, w)])))"
  proof (cases "dim_of env E w")
    case (Inl e)
    with plot_no_dim[OF Inl] show ?thesis by simp
  next
    case (Inr dm)
    show ?thesis
    proof (cases "one_d_of plot_dims dm")
      case (Inl e)
      with plot_no_one_d[OF Inr Inl] Inr show ?thesis by simp
    next
      case od: (Inr od)
      with plot_no_labels[OF lab Inr od] Inr show ?thesis by simp
    qed
  qed
qed

theorem single_custom_label_raises_witness:
  "length [StrV ''x''] = 1 \<and>
   labels_of fresh_env str_of_int emu0 [0] (IntV 2) True [StrV ''x''] store0 = Inl IndexError \<and>
   plot fresh_env str_of_int emu0 [0] [1] [0.5] ''mean'' [StrV ''x''] (store0, [])
     = Some (Inl IndexError,
         (store0, [(Print (CHR 0x0A # ''***Generating plot***''), Inr NoneV, store0)]))"
proof -
  have one: "length [StrV ''x''] = 1" by simp
  have dm: "dim_of fresh_env emu0 store0 = Inr (IntV 2)"
    by (simp add: dim_of_def bind_err_def item_def fresh_env_def fresh_getattr_def emu0_def)
  have od: "one_d_of [0] (IntV 2) = Inr True" by (simp add: one_d_of_def)
  note main = single_custom_label_raises[of "[StrV ''x'']" fresh_env str_of_int emu0 "[0]"
      "IntV 2" True store0 "[1]" "[0.5]" "''mean''" "[]"]
  from main one have 1:
    "labels_of fresh_env str_of_int emu0 [0] (IntV 2) True [StrV ''x''] store0 = Inl IndexError"
    by (elim conjE) simp
  from main one have 2:
    "plot fresh_env str_of_int emu0 [0] [1] [0.5] ''mean'' [StrV ''x''] (store0, []) =
        (case dim_of fresh_env emu0 store0 of
           Inl e \<Rightarrow> Some (Inl e, (store0, []))
         | Inr dm \<Rightarrow>
             Some (case one_d_of [0] dm of Inl e \<Rightarrow> Inl e | Inr od \<Rightarrow> Inl IndexError,
                   (store0, [] @ [(Print (CHR 0x0A # ''***Generating plot***''), Inr NoneV, store0)])))"
    by (elim conjE) simp
  from 2 dm od have 3:
    "plot fresh_env str_of_int emu0 [0] [1] [0.5] ''mean'' [StrV ''x''] (store0, [])
     = Some (Inl IndexError,
         (store0, [(Print (CHR 0x0A # ''***Generating plot***''), Inr NoneV, store0)]))"
    by simp
  from one 1 3 show ?thesis by (intro conjI)
qed

section \<open>The resolution, the dimension and the outputs of a plot\<close>



section \<open>What plot leaves as it is\<close>



section \<open>The log of setup\<close>

lemma attr_apply: "attr env v name (w, lg) = Some (getattr env w v name, (w, lg))"
  by (simp add: attr_def)

lemma ex_setup:
  "calls_of (setup_emulator fresh_env ''config.txt'' True False (store0, [])) = 
    [ (Call Config [Pos (StrV ''config.txt'')], Inr (Obj 100)),
      (Call Beliefs [Pos (StrV ''beliefs'')], Inr (Obj 101)),
      (Call Hyperparams [Pos (Obj 101)], Inr (Obj 102)),
      (Call Basis [Pos (Obj 101)], Inr (Obj 103)),
      (Call TV_config [Pos (IntV 10), Pos (IntV 0), Pos (IntV 2)], Inr (Obj 104)),
      (Call All_Data [Pos (StrV ''inputs''), Pos (StrV ''outputs''), Pos (Obj 104),
         Pos (Obj 101), Pos (Obj 102), Pos (BoolV True), Pos (BoolV False)], Inr (Obj 105)),
      (Call build_kernel [Pos (Obj 101)], Inr (Obj 106)),
      (Call auto_configure_kernel [Pos (Obj 106), Pos (Obj 102), Pos (Obj 105)], Inr NoneV),
      (Call choose_T [Pos (Obj 105)], Inr (ListV [Obj 107, Obj 108])),
      (Call choose_V [Pos (Obj 105)], Inr (ListV [Obj 109, Obj 110])),
      (Call Data [Pos (Obj 107), Pos (Obj 108), Pos (Obj 103), Pos (Obj 102), Pos (Obj 101),
         Pos (Obj 106)], Inr (Obj 111)),
      (Call Data [Pos (Obj 109), Pos (Obj 110), Pos (Obj 103), Pos (Obj 102), Pos (Obj 101),
         Pos (Obj 106)], Inr (Obj 112)),
      (Call Posterior [Pos (Obj 112), Pos (Obj 111), Pos (Obj 102), Pos (Obj 101),
         Pos (Obj 106)], Inr (Obj 113)),
      (Call Optimize [Pos (Obj 111), Pos (Obj 103), Pos (Obj 102), Pos (Obj 101),
         Pos (Obj 100)], Inr (Obj 114)),
      (Call Emulator [Pos (Obj 100), Pos (Obj 101), Pos (Obj 102), Pos (Obj 103), Pos (Obj 104),
         Pos (Obj 105), Pos (Obj 111), Pos (Obj 112), Pos (Obj 113), Pos (Obj 114),
         Pos (Obj 106)], Inr (Obj 115)) ]"
  by (simp add: calls_of_def setup_emulator_def andthen_apply invoke_apply stmt_apply
        reading_apply attr_apply ret_def star_def unpack2_def fresh_env_def fresh_perform_def
        fresh_getattr_def emu0_def store0_def)

lemma setup_log:
  assumes "setup_emulator env config_file datashuffle scaleinputs (w, lg) = Some (Inr E, (w', lg'))"
  shows "\<exists>new c bf b p bs tv_args tv inputs outputs ad k ac ct cv x_T y_T x_V y_V t v ps ot.
     lg' = lg @ new \<and> unpack2 ct = Inr (x_T, y_T) \<and> unpack2 cv = Inr (x_V, y_V) \<and>
     map (\<lambda>x. (fst x, fst (snd x))) new =
      [ (Call Config [Pos (StrV config_file)], Inr c),
        (Call Beliefs [Pos bf], Inr b),
        (Call Hyperparams [Pos b], Inr p),
        (Call Basis [Pos b], Inr bs),
        (Call TV_config tv_args, Inr tv),
        (Call All_Data [Pos inputs, Pos outputs, Pos tv, Pos b, Pos p, Pos (BoolV datashuffle),
           Pos (BoolV scaleinputs)], Inr ad),
        (Call build_kernel [Pos b], Inr k),
        (Call auto_configure_kernel [Pos k, Pos p, Pos ad], Inr ac),
        (Call choose_T [Pos ad], Inr ct),
        (Call choose_V [Pos ad], Inr cv),
        (Call Data [Pos x_T, Pos y_T, Pos bs, Pos p, Pos b, Pos k], Inr t),
        (Call Data [Pos x_V, Pos y_V, Pos bs, Pos p, Pos b, Pos k], Inr v),
        (Call Posterior [Pos v, Pos t, Pos p, Pos b, Pos k], Inr ps),
        (Call Optimize [Pos t, Pos bs, Pos p, Pos b, Pos c], Inr ot),
        (Call Emulator [Pos c, Pos b, Pos p, Pos bs, Pos tv, Pos ad, Pos t, Pos v, Pos ps,
           Pos ot, Pos k], Inr E) ]"
  using assms unfolding setup_emulator_def
  by (auto simp: andthen_apply invoke_apply stmt_apply reading_apply attr_apply ret_def
        split: sum.splits prod.splits)

lemma ex_setup_run:
  "\<exists>w' lg'. setup_emulator fresh_env ''config.txt'' True False (store0, [])
     = Some (Inr (Obj 115), (w', lg'))"
  by (simp add: setup_emulator_def andthen_apply invoke_apply stmt_apply
        reading_apply attr_apply ret_def star_def unpack2_def fresh_env_def fresh_perform_def
        fresh_getattr_def emu0_def store0_def)

section \<open>The hyperparameters and the kernel that setup shares\<close>

text \<open>
  Claim C4, as amended. A call of \<^verbatim>\<open>setup\<close> that returns has made exactly these fifteen
  calls, in this order, each with the values the calls before it returned: one call of
  \<^verbatim>\<open>Hyperparams\<close>, whose result \<open>p\<close> is passed to \<^verbatim>\<open>All_Data\<close>, \<^verbatim>\<open>auto_configure_kernel\<close>,
  the two \<^verbatim>\<open>Data\<close> constructors, \<^verbatim>\<open>Posterior\<close>, \<^verbatim>\<open>Optimize\<close> and \<^verbatim>\<open>Emulator\<close>; and one call
  of \<^verbatim>\<open>build_kernel\<close>, whose result \<open>k\<close> is passed to \<^verbatim>\<open>auto_configure_kernel\<close>, the two
  \<^verbatim>\<open>Data\<close> constructors, \<^verbatim>\<open>Posterior\<close> and \<^verbatim>\<open>Emulator\<close>. \<^verbatim>\<open>Optimize\<close> is called as
  \<^verbatim>\<open>Optimize(training, basis, par, beliefs, config)\<close>: the kernel is no argument of it. What
  \<^verbatim>\<open>setup\<close> returns is what \<^verbatim>\<open>Emulator\<close> returned.
\<close>

theorem setup_shares_par_and_kernel:
  assumes "setup_emulator env config_file datashuffle scaleinputs (w, lg) = Some (Inr E, (w', lg'))"
  shows "\<exists>new c bf b p bs tv_args tv inputs outputs ad k ac ct cv x_T y_T x_V y_V t v ps ot.
     lg' = lg @ new \<and> unpack2 ct = Inr (x_T, y_T) \<and> unpack2 cv = Inr (x_V, y_V) \<and>
     map (\<lambda>x. (fst x, fst (snd x))) new =
      [ (Call Config [Pos (StrV config_file)], Inr c),
        (Call Beliefs [Pos bf], Inr b),
        (Call Hyperparams [Pos b], Inr p),
        (Call Basis [Pos b], Inr bs),
        (Call TV_config tv_args, Inr tv),
        (Call All_Data [Pos inputs, Pos outputs, Pos tv, Pos b, Pos p, Pos (BoolV datashuffle),
           Pos (BoolV scaleinputs)], Inr ad),
        (Call build_kernel [Pos b], Inr k),
        (Call auto_configure_kernel [Pos k, Pos p, Pos ad], Inr ac),
        (Call choose_T [Pos ad], Inr ct),
        (Call choose_V [Pos ad], Inr cv),
        (Call Data [Pos x_T, Pos y_T, Pos bs, Pos p, Pos b, Pos k], Inr t),
        (Call Data [Pos x_V, Pos y_V, Pos bs, Pos p, Pos b, Pos k], Inr v),
        (Call Posterior [Pos v, Pos t, Pos p, Pos b, Pos k], Inr ps),
        (Call Optimize [Pos t, Pos bs, Pos p, Pos b, Pos c], Inr ot),
        (Call Emulator [Pos c, Pos b, Pos p, Pos bs, Pos tv, Pos ad, Pos t, Pos v, Pos ps,
           Pos ot, Pos k], Inr E) ]"
  using assms by (rule setup_log)

theorem setup_shares_par_and_kernel_witness:
  "\<exists>w' lg'. setup_emulator fresh_env ''config.txt'' True False (store0, [])
       = Some (Inr (Obj 115), (w', lg')) \<and>
   (\<exists>new c bf b p bs tv_args tv inputs outputs ad k ac ct cv x_T y_T x_V y_V t v ps ot.
     lg' = [] @ new \<and> unpack2 ct = Inr (x_T, y_T) \<and> unpack2 cv = Inr (x_V, y_V) \<and>
     map (\<lambda>x. (fst x, fst (snd x))) new =
      [ (Call Config [Pos (StrV ''config.txt'')], Inr c),
        (Call Beliefs [Pos bf], Inr b),
        (Call Hyperparams [Pos b], Inr p),
        (Call Basis [Pos b], Inr bs),
        (Call TV_config tv_args, Inr tv),
        (Call All_Data [Pos inputs, Pos outputs, Pos tv, Pos b, Pos p, Pos (BoolV True),
           Pos (BoolV False)], Inr ad),
        (Call build_kernel [Pos b], Inr k),
        (Call auto_configure_kernel [Pos k, Pos p, Pos ad], Inr ac),
        (Call choose_T [Pos ad], Inr ct),
        (Call choose_V [Pos ad], Inr cv),
        (Call Data [Pos x_T, Pos y_T, Pos bs, Pos p, Pos b, Pos k], Inr t),
        (Call Data [Pos x_V, Pos y_V, Pos bs, Pos p, Pos b, Pos k], Inr v),
        (Call Posterior [Pos v, Pos t, Pos p, Pos b, Pos k], Inr ps),
        (Call Optimize [Pos t, Pos bs, Pos p, Pos b, Pos c], Inr ot),
        (Call Emulator [Pos c, Pos b, Pos p, Pos bs, Pos tv, Pos ad, Pos t, Pos v, Pos ps,
           Pos ot, Pos k], Inr (Obj 115)) ])"
proof -
  obtain w' lg' where
    run: "setup_emulator fresh_env ''config.txt'' True False (store0, [])
       = Some (Inr (Obj 115), (w', lg'))"
    using ex_setup_run by (elim exE) (rule that)
  note main = setup_shares_par_and_kernel[OF run]
  show ?thesis
    apply (rule exI[of _ w'], rule exI[of _ lg'])
    using run main by (intro conjI)
qed

text \<open>
  The claim as worded fails for the kernel and \<^verbatim>\<open>Optimize\<close>: where every constructor returns
  a new object, the kernel is the object 106 and no argument of the call of \<^verbatim>\<open>Optimize\<close> is
  that object.
\<close>

theorem optimize_not_given_kernel:
  "calls_of (setup_emulator fresh_env ''config.txt'' True False (store0, [])) ! 6
     = (Call build_kernel [Pos (Obj 101)], Inr (Obj 106)) \<and>
   calls_of (setup_emulator fresh_env ''config.txt'' True False (store0, [])) ! 13
     = (Call Optimize [Pos (Obj 111), Pos (Obj 103), Pos (Obj 102), Pos (Obj 101), Pos (Obj 100)],
        Inr (Obj 114)) \<and>
   Pos (Obj 106) \<notin> set [Pos (Obj 111), Pos (Obj 103), Pos (Obj 102), Pos (Obj 101), Pos (Obj 100)]"
  by (simp add: ex_setup)

section \<open>train on a partition plan\<close>

lemma rounds_run_append: "rounds_run E (xs @ ys) = rounds_run E xs + rounds_run E ys"
  by (simp add: rounds_run_def)

lemma builds_run_append: "builds_run (xs @ ys) = builds_run xs + builds_run ys"
  by (simp add: builds_run_def)

lemma builds_asked_append: "builds_asked E (xs @ ys) = builds_asked E xs + builds_asked E ys"
  by (simp add: builds_asked_def)

lemma sets_consumed_append:
  "sets_consumed E (xs @ ys) = sets_consumed E xs + sets_consumed E ys"
  by (simp add: sets_consumed_def)

lemma folds_only_append:
  "folds_only E p (xs @ ys) \<longleftrightarrow> folds_only E p xs \<and> folds_only E (last_world p xs) ys"
  by (induction xs arbitrary: p) (simp_all add: last_world_def)

lemma last_world_append: "last_world w (xs @ ys) = last_world (last_world w xs) ys"
  by (simp add: last_world_def)

lemma round_on_plan:
  "\<exists>new. train_round partition_env E message (p, lg)
       = Some (Inr (), (plan_after_round p, lg @ new)) \<and>
     rounds_run E new = 0 \<and> builds_run new = 0 \<and> builds_asked E new = 0 \<and>
     current (plan_after_round p) = current p + sets_consumed E new \<and>
     folds_only E p new \<and> last_world p new = plan_after_round p"
proof (cases "auto_promote p \<and> current p + 1 < noV p")
  case True
  then show ?thesis
    by (simp add: train_round_def next_round_def andthen_apply stmt_apply py_if_invoke_apply
          py_print_apply ret_def partition_env_def partition_perform_def plan_after_round_def
          rounds_run_def builds_run_def builds_asked_def sets_consumed_def last_world_def)
next
  case False
  then show ?thesis
    by (auto simp: train_round_def next_round_def andthen_apply stmt_apply py_if_invoke_apply
          py_print_apply ret_def partition_env_def partition_perform_def plan_after_round_def
          rounds_run_def builds_run_def builds_asked_def sets_consumed_def last_world_def)
qed

lemma sets_left_after_round:
  assumes "current p < noV p" "\<not> exhausted p"
  shows "sets_left (plan_after_round p) < sets_left p"
  using assms by (auto simp: sets_left_def plan_after_round_def)

lemma plan_after_round_keeps:
  "noV (plan_after_round p) = noV p" "final_requested (plan_after_round p) = final_requested p"
  by (simp_all add: plan_after_round_def)

lemma loop_on_plan:
  "\<exists>p' new. training_loop partition_env E message (p, lg) = Some (Inr (), (p', lg @ new)) \<and>
     rounds_run E new \<le> sets_left p \<and> builds_run new = 0 \<and> builds_asked E new = 0 \<and>
     noV p' = noV p \<and> final_requested p' = final_requested p \<and>
     current p' = current p + sets_consumed E new \<and>
     rounds_run E new \<le> sets_consumed E new + 1 \<and>
     folds_only E p new \<and> last_world p new = p'"
proof (induction "sets_left p" arbitrary: p lg rule: less_induct)
  case less
  define b where "b \<longleftrightarrow> current p < noV p \<and> \<not> exhausted p"
  let ?g = "(Call doing_training [Pos (tv_conf E)], Inr (BoolV b), p)"
  have guard: "invoke partition_env doing_training [Pos (tv_conf E)] (p, lg)
      = Some (Inr (BoolV b), (p, lg @ [?g]))"
    by (simp add: invoke_apply partition_env_def partition_perform_def b_def)
  show ?case
  proof (cases b)
    case False
    then have "training_loop partition_env E message (p, lg) = Some (Inr (), (p, lg @ [?g]))"
      unfolding training_loop_def by (subst py_while.simps) (simp add: guard)
    moreover from False have "rounds_run E [?g] = 0" "builds_run [?g] = 0"
      "builds_asked E [?g] = 0" "sets_consumed E [?g] = 0"
      "folds_only E p [?g]" "last_world p [?g] = p"
      by (simp_all add: rounds_run_def builds_run_def builds_asked_def sets_consumed_def
            answer_def last_world_def)
    ultimately show ?thesis by force
  next
    case True
    from round_on_plan[of E message p "lg @ [?g]"] obtain new1 where
      round: "train_round partition_env E message (p, lg @ [?g])
          = Some (Inr (), (plan_after_round p, (lg @ [?g]) @ new1))"
      and c1: "rounds_run E new1 = 0" "builds_run new1 = 0" "builds_asked E new1 = 0"
      and s1: "current (plan_after_round p) = current p + sets_consumed E new1"
      and f1: "folds_only E p new1" "last_world p new1 = plan_after_round p"
      by blast
    from True have dec: "sets_left (plan_after_round p) < sets_left p"
      by (simp add: sets_left_after_round b_def)
    from less[OF dec, of "(lg @ [?g]) @ new1"] obtain p' new2 where
      rest: "training_loop partition_env E message (plan_after_round p, (lg @ [?g]) @ new1)
          = Some (Inr (), (p', ((lg @ [?g]) @ new1) @ new2))"
      and c2: "rounds_run E new2 \<le> sets_left (plan_after_round p)" "builds_run new2 = 0"
        "builds_asked E new2 = 0"
      and keep: "noV p' = noV (plan_after_round p)"
        "final_requested p' = final_requested (plan_after_round p)"
      and s2: "current p' = current (plan_after_round p) + sets_consumed E new2"
        "rounds_run E new2 \<le> sets_consumed E new2 + 1"
      and f2: "folds_only E (plan_after_round p) new2"
        "last_world (plan_after_round p) new2 = p'"
      by blast
    have "training_loop partition_env E message (p, lg)
        = training_loop partition_env E message (plan_after_round p, (lg @ [?g]) @ new1)"
      using guard round True unfolding training_loop_def
      by (subst py_while.simps) simp
    with rest have run: "training_loop partition_env E message (p, lg)
        = Some (Inr (), (p', lg @ ([?g] @ new1 @ new2)))" by simp
    from True have g: "rounds_run E [?g] = 1" "builds_run [?g] = 0" "builds_asked E [?g] = 0"
      "sets_consumed E [?g] = 0"
      by (simp_all add: rounds_run_def builds_run_def builds_asked_def sets_consumed_def
            answer_def)
    have quiet: "rounds_run E new2 = 0" if "sets_consumed E new1 = 0"
    proof -
      from that s1 have "exhausted (plan_after_round p)"
        by (auto simp: plan_after_round_def split: if_splits)
      with c2(1) show ?thesis by (simp add: sets_left_def)
    qed
    have "rounds_run E ([?g] @ new1 @ new2)
        = rounds_run E [?g] + (rounds_run E new1 + rounds_run E new2)"
      "builds_run ([?g] @ new1 @ new2) = builds_run [?g] + (builds_run new1 + builds_run new2)"
      "builds_asked E ([?g] @ new1 @ new2)
        = builds_asked E [?g] + (builds_asked E new1 + builds_asked E new2)"
      "sets_consumed E ([?g] @ new1 @ new2)
        = sets_consumed E [?g] + (sets_consumed E new1 + sets_consumed E new2)"
      by (simp_all only: rounds_run_append builds_run_append builds_asked_append
            sets_consumed_append)
    with g c1 c2 dec s1 s2 quiet have "rounds_run E ([?g] @ new1 @ new2) \<le> sets_left p"
      "builds_run ([?g] @ new1 @ new2) = 0" "builds_asked E ([?g] @ new1 @ new2) = 0"
      "current p' = current p + sets_consumed E ([?g] @ new1 @ new2)"
      "rounds_run E ([?g] @ new1 @ new2) \<le> sets_consumed E ([?g] @ new1 @ new2) + 1"
      by (cases "sets_consumed E new1 = 0"; simp)+
    moreover have "folds_only E p ([?g] @ new1 @ new2)" "last_world p ([?g] @ new1 @ new2) = p'"
    proof -
      have g0: "folds_only E p [?g]" "last_world p [?g] = p"
        by (simp_all add: last_world_def)
      from g0 f1 f2 show "folds_only E p ([?g] @ new1 @ new2)"
        by (simp only: folds_only_append)
      from g0 f1 f2 show "last_world p ([?g] @ new1 @ new2) = p'"
        by (simp only: last_world_append)
    qed
    moreover note run keep plan_after_round_keeps[of p]
    ultimately show ?thesis by metis
  qed
qed

lemma stage_on_plan:
  "\<exists>p' new. final_stage partition_env E message (p, lg) = Some (Inr (), (p', lg @ new)) \<and>
     rounds_run E new = 0 \<and> builds_asked E new = 1 \<and> sets_consumed E new = 0 \<and>
     current p' = current p \<and> folds_only E p new \<and> last_world p new = p' \<and>
     builds_run new = (if final_requested p then 1 else 0)"
proof (cases "final_requested p")
  case False
  then show ?thesis
    by (simp add: final_stage_def py_if_invoke_apply partition_env_def partition_perform_def
          rounds_run_def builds_run_def builds_asked_def sets_consumed_def last_world_def)
next
  case True
  then show ?thesis
    by (cases "noV p = 0")
       (simp_all add: final_stage_def final_build_def py_if_def attr_def invoke_apply
          andthen_apply stmt_apply py_if_invoke_apply py_print_apply ret_def
          partition_env_def partition_perform_def partition_getattr_def
          rounds_run_def builds_run_def builds_asked_def sets_consumed_def last_world_def)
qed

lemma train_on_plan:
  "\<exists>p' lg. train partition_env E auto message (p, []) = Some (Inr NoneV, (p', lg)) \<and>
     rounds_run E lg \<le> noV p - current p \<and>
     rounds_run E lg \<le> sets_consumed E lg + 1 \<and>
     current p' = current p + sets_consumed E lg \<and>
     builds_asked E lg = 1 \<and>
     builds_run lg = (if final_requested p then 1 else 0) \<and>
     folds_only E p lg \<and> last_world p lg = p'"
proof -
  let ?a = "(Call auto_train [Pos (tv_conf E), Pos (BoolV auto)], Inr NoneV,
             p\<lparr>auto_promote := auto\<rparr>)"
  let ?p = "p\<lparr>auto_promote := auto\<rparr>"
  have first: "stmt partition_env auto_train [Pos (tv_conf E), Pos (BoolV auto)] (p, [])
      = Some (Inr (), (?p, [] @ [?a]))"
    by (simp add: stmt_apply partition_env_def partition_perform_def)
  from loop_on_plan[of E message ?p "[] @ [?a]"] obtain p1 new1 where
    loop: "training_loop partition_env E message (?p, [] @ [?a])
        = Some (Inr (), (p1, ([] @ [?a]) @ new1))"
    and c1: "rounds_run E new1 \<le> sets_left ?p" "builds_run new1 = 0" "builds_asked E new1 = 0"
      "noV p1 = noV ?p" "final_requested p1 = final_requested ?p"
      "current p1 = current ?p + sets_consumed E new1"
      "rounds_run E new1 \<le> sets_consumed E new1 + 1"
      "folds_only E ?p new1" "last_world ?p new1 = p1"
    by blast
  from stage_on_plan[of E message p1 "([] @ [?a]) @ new1"] obtain p2 new2 where
    stage: "final_stage partition_env E message (p1, ([] @ [?a]) @ new1)
        = Some (Inr (), (p2, (([] @ [?a]) @ new1) @ new2))"
    and c2: "rounds_run E new2 = 0" "builds_asked E new2 = 1" "sets_consumed E new2 = 0"
      "current p2 = current p1"
      "builds_run new2 = (if final_requested p1 then 1 else 0)"
      "folds_only E p1 new2" "last_world p1 new2 = p2"
    by blast
  have run: "train partition_env E auto message (p, [])
      = Some (Inr NoneV, (p2, [?a] @ new1 @ new2))"
    using first loop stage by (simp add: train_def andthen_apply ret_def)
  have a: "rounds_run E [?a] = 0" "builds_run [?a] = 0" "builds_asked E [?a] = 0"
    "sets_consumed E [?a] = 0"
    by (simp_all add: rounds_run_def builds_run_def builds_asked_def sets_consumed_def)
  have split: "rounds_run E ([?a] @ new1 @ new2)
        = rounds_run E [?a] + (rounds_run E new1 + rounds_run E new2)"
      "builds_run ([?a] @ new1 @ new2) = builds_run [?a] + (builds_run new1 + builds_run new2)"
      "builds_asked E ([?a] @ new1 @ new2)
        = builds_asked E [?a] + (builds_asked E new1 + builds_asked E new2)"
      "sets_consumed E ([?a] @ new1 @ new2)
        = sets_consumed E [?a] + (sets_consumed E new1 + sets_consumed E new2)"
    by (simp_all only: rounds_run_append builds_run_append builds_asked_append
          sets_consumed_append)
  have left: "sets_left ?p \<le> noV p - current p" by (simp add: sets_left_def)
  from split a c1 c2 left have
    "rounds_run E ([?a] @ new1 @ new2) \<le> noV p - current p"
    "rounds_run E ([?a] @ new1 @ new2) \<le> sets_consumed E ([?a] @ new1 @ new2) + 1"
    "current p2 = current p + sets_consumed E ([?a] @ new1 @ new2)"
    "builds_asked E ([?a] @ new1 @ new2) = 1"
    "builds_run ([?a] @ new1 @ new2) = (if final_requested p then 1 else 0)"
    by simp_all
  moreover have "folds_only E p ([?a] @ new1 @ new2)" "last_world p ([?a] @ new1 @ new2) = p2"
  proof -
    have a0: "folds_only E p [?a]" "last_world p [?a] = ?p"
      by (simp_all add: last_world_def)
    from a0 c1(8,9) c2(6,7) show "folds_only E p ([?a] @ new1 @ new2)"
      by (simp only: folds_only_append)
    from a0 c1(8,9) c2(6,7) show "last_world p ([?a] @ new1 @ new2) = p2"
      by (simp only: last_world_append)
  qed
  ultimately show ?thesis using run by blast
qed

lemma folds_only_at:
  assumes "folds_only E q (pre @ x # suf)"
  shows "(if fst x = Call incVinT [Pos (post E)]
          then T_block (snd (snd x)) = T_block (last_world q pre) @ V_block (last_world q pre)
          else T_block (snd (snd x)) = T_block (last_world q pre)) \<and>
         folds_only E (snd (snd x)) suf"
  using assms by (simp add: folds_only_append)

lemma folds_only_prefix:
  "folds_only E q lg \<Longrightarrow> y \<in> set lg \<Longrightarrow> prefix (T_block q) (T_block (snd (snd y)))"
proof (induction lg arbitrary: q)
  case Nil
  then show ?case by simp
next
  case (Cons x xs)
  from Cons.prems(1) have step: "prefix (T_block q) (T_block (snd (snd x)))"
    and rest: "folds_only E (snd (snd x)) xs"
    by (auto split: if_splits)
  show ?case
  proof (cases "y = x")
    case True
    with step show ?thesis by simp
  next
    case False
    with Cons.prems(2) have "y \<in> set xs" by simp
    from Cons.IH[OF rest this] step show ?thesis by (rule prefix_order.trans[rotated])
  qed
qed

lemma ex_train_fold:
  "\<exists>p' lg. train partition_env emu0 True False (plan0, []) = Some (Inr NoneV, (p', lg)) \<and>
     length lg = 37 \<and> fst (lg ! 12) = Call incVinT [Pos (post emu0)] \<and>
     T_block p' = [0, 1, 2, 3, 4, 5]"
  by (simp add: train_def training_loop_def final_stage_def py_while.simps invoke_apply
        train_round_def next_round_def final_build_def py_if_def attr_def
        andthen_apply stmt_apply py_if_invoke_apply py_print_apply ret_def
        partition_env_def partition_perform_def partition_getattr_def plan0_def emu0_def
        V_block_def)

section \<open>Termination of train\<close>



section \<open>The training block grows\<close>

text \<open>
  Claim C3. On every partition plan, along the whole log of \<^verbatim>\<open>train\<close> the training block
  changes only at the calls \<^verbatim>\<open>E.post.incVinT()\<close>, those of the promotions and the one of the
  final build: there the validation block current at that moment is appended, so the new
  size is the old size plus the size of that block; every other call leaves the block as it
  is. After the \<^verbatim>\<open>incVinT\<close>, \<^verbatim>\<open>next_Vset\<close>, \<^verbatim>\<open>choose_new_V\<close> of a promotion the size is the
  size before the promotion plus the size of the block that was current before it. The block
  at any moment is a prefix of the block at any later moment: nothing is ever removed.
\<close>

theorem training_block_grows:
  "\<exists>p' lg. train partition_env E auto message (p, []) = Some (Inr NoneV, (p', lg)) \<and>
     last_world p lg = p' \<and> prefix (T_block p) (T_block p') \<and>
     (\<forall>pre x suf. lg = pre @ x # suf \<longrightarrow>
        (if fst x = Call incVinT [Pos (post E)]
         then T_block (snd (snd x)) = T_block (last_world p pre) @ V_block (last_world p pre) \<and>
              length (T_block (snd (snd x)))
                = length (T_block (last_world p pre)) + length (V_block (last_world p pre))
         else T_block (snd (snd x)) = T_block (last_world p pre))) \<and>
     (\<forall>pre x y z suf. lg = pre @ x # y # z # suf \<longrightarrow>
        fst x = Call incVinT [Pos (post E)] \<longrightarrow> fst y = Call next_Vset [Pos (tv_conf E)] \<longrightarrow>
        fst z = Call choose_new_V [Pos (all_data E), Pos (validation E)] \<longrightarrow>
        length (T_block (snd (snd z)))
          = length (T_block (last_world p pre)) + length (V_block (last_world p pre))) \<and>
     (\<forall>pre x mid y suf. lg = pre @ x # mid @ y # suf \<longrightarrow>
        prefix (T_block (snd (snd x))) (T_block (snd (snd y))))"
proof -
  from train_on_plan[of E auto message p] obtain p' lg where
    run: "train partition_env E auto message (p, []) = Some (Inr NoneV, (p', lg))"
    and folds: "folds_only E p lg" and lastw: "last_world p lg = p'"
    by blast
  have grow: "prefix (T_block p) (T_block p')"
  proof (cases "lg = []")
    case True
    with lastw show ?thesis by (simp add: last_world_def)
  next
    case False
    then have "last lg \<in> set lg" by simp
    from folds_only_prefix[OF folds this] lastw False show ?thesis
      by (simp add: last_world_def)
  qed
  have at: "if fst x = Call incVinT [Pos (post E)]
         then T_block (snd (snd x)) = T_block (last_world p pre) @ V_block (last_world p pre) \<and>
              length (T_block (snd (snd x)))
                = length (T_block (last_world p pre)) + length (V_block (last_world p pre))
         else T_block (snd (snd x)) = T_block (last_world p pre)"
    if "lg = pre @ x # suf" for pre x suf
    using folds_only_at[of E p pre x suf] folds that by (auto split: if_splits)
  have promo: "length (T_block (snd (snd z)))
          = length (T_block (last_world p pre)) + length (V_block (last_world p pre))"
    if s: "lg = pre @ x # y # z # suf" and x: "fst x = Call incVinT [Pos (post E)]"
      and y: "fst y = Call next_Vset [Pos (tv_conf E)]"
      and z: "fst z = Call choose_new_V [Pos (all_data E), Pos (validation E)]"
    for pre x y z suf
  proof -
    from folds s have "folds_only E p (pre @ x # y # z # suf)" by simp
    from folds_only_at[OF this] x have
      1: "T_block (snd (snd x)) = T_block (last_world p pre) @ V_block (last_world p pre)"
      and r: "folds_only E (snd (snd x)) (y # z # suf)" by simp_all
    from r y z have "T_block (snd (snd z)) = T_block (snd (snd x))" by simp
    with 1 show ?thesis by simp
  qed
  have later: "prefix (T_block (snd (snd x))) (T_block (snd (snd y)))"
    if s: "lg = pre @ x # mid @ y # suf" for pre x mid y suf
  proof -
    from folds s have "folds_only E p (pre @ x # (mid @ y # suf))" by simp
    from folds_only_at[OF this] have "folds_only E (snd (snd x)) (mid @ y # suf)" by simp
    from folds_only_prefix[OF this, of y] show ?thesis by simp
  qed
  from run lastw grow at promo later show ?thesis by blast
qed

theorem training_block_grows_witness:
  "\<exists>p' lg. train partition_env emu0 True False (plan0, []) = Some (Inr NoneV, (p', lg)) \<and>
     prefix (T_block plan0) (T_block p') \<and> T_block p' = [0, 1, 2, 3, 4, 5] \<and>
     lg = take 12 lg @ lg ! 12 # drop 13 lg \<and>
     fst (lg ! 12) = Call incVinT [Pos (post emu0)] \<and>
     T_block (snd (snd (lg ! 12)))
       = T_block (last_world plan0 (take 12 lg)) @ V_block (last_world plan0 (take 12 lg)) \<and>
     length (T_block (snd (snd (lg ! 12))))
       = length (T_block (last_world plan0 (take 12 lg)))
         + length (V_block (last_world plan0 (take 12 lg)))"
proof -
  obtain q lg0 where
    run0: "train partition_env emu0 True False (plan0, []) = Some (Inr NoneV, (q, lg0))"
    and len: "length lg0 = 37" and inc: "fst (lg0 ! 12) = Call incVinT [Pos (post emu0)]"
    and final: "T_block q = [0, 1, 2, 3, 4, 5]"
    using ex_train_fold by (elim exE conjE) (rule that)
  obtain p' lg where
    run: "train partition_env emu0 True False (plan0, []) = Some (Inr NoneV, (p', lg))"
    and grow: "prefix (T_block plan0) (T_block p')"
    and at: "\<forall>pre x suf. lg = pre @ x # suf \<longrightarrow>
        (if fst x = Call incVinT [Pos (post emu0)]
         then T_block (snd (snd x))
                = T_block (last_world plan0 pre) @ V_block (last_world plan0 pre) \<and>
              length (T_block (snd (snd x)))
                = length (T_block (last_world plan0 pre)) + length (V_block (last_world plan0 pre))
         else T_block (snd (snd x)) = T_block (last_world plan0 pre))"
    using training_block_grows[of emu0 True False plan0] by (elim exE conjE) (rule that)
  from run run0 have same: "lg = lg0" "p' = q" by simp_all
  from len same have split: "lg = take 12 lg @ lg ! 12 # drop 13 lg"
    using id_take_nth_drop[of 12 lg] by simp
  from at[rule_format, OF split] inc same have
    "T_block (snd (snd (lg ! 12)))
       = T_block (last_world plan0 (take 12 lg)) @ V_block (last_world plan0 (take 12 lg)) \<and>
     length (T_block (snd (snd (lg ! 12))))
       = length (T_block (last_world plan0 (take 12 lg)))
         + length (V_block (last_world plan0 (take 12 lg)))"
    by simp
  with run grow final same split inc show ?thesis
    apply -
    apply (rule exI[of _ p'], rule exI[of _ lg])
    apply (elim conjE)
    apply (intro conjI)
    apply simp_all
    done
qed

end
